theory Spec2Isabelle
  imports Complex_Main "HOL-Library.Word" "HOL-Library.Log_Nat" "HOL-Library.Sublist"
begin

section \<open>JavaScript numbers\<close>

text \<open>
  \<^verbatim>\<open>receivedLength\<close>, \<^verbatim>\<open>contentLength\<close>, \<^verbatim>\<open>position\<close> and \<^verbatim>\<open>percent\<close> in
  \<^verbatim>\<open>src/downloader.js\<close> are JavaScript numbers: binary64 values. A finite one is kept as
  the rational it denotes (the two zeros are not told apart: the code never divides by a
  zero, and nothing else sees the sign of a zero), the others are the infinities and NaN.
\<close>

datatype js_number = NaN | NegInf | Fin rat | PosInf

text \<open>\<open>\<lfloor>log\<^sub>2 x\<rfloor>\<close> for a positive rational \<open>x\<close>.\<close>

definition ilog2 :: "rat \<Rightarrow> int" where
  "ilog2 x =
     (let (a, b) = quotient_of x;
          d = bitlen a - bitlen b
      in if x < 2 powi d then d - 1 else d)"

definition round_half_even :: "rat \<Rightarrow> int" where
  "round_half_even r =
     (let f = \<lfloor>r\<rfloor>; d = r - of_int f
      in if d < 1 / 2 then f else if 1 / 2 < d then f + 1 else if even f then f else f + 1)"

text \<open>The exponent of the last bit of the 53-bit significand of \<open>x\<close>, not below that of
  the subnormal numbers.\<close>

definition quantum :: "rat \<Rightarrow> int" where
  "quantum x = max (ilog2 x - 52) (- 1074)"

definition round_pos :: "rat \<Rightarrow> rat" where
  "round_pos x =
     (if x = 0 then 0
      else of_int (round_half_even (x / 2 powi quantum x)) * 2 powi quantum x)"

text \<open>Round to nearest, ties to even, on sign and magnitude.\<close>

definition round64 :: "rat \<Rightarrow> rat" where
  "round64 x = (if x < 0 then - round_pos (- x) else round_pos x)"

text \<open>The Number value for a rational: rounded, and an infinity from \<open>2\<^sup>1\<^sup>0\<^sup>2\<^sup>4\<close> on.\<close>

definition to_double :: "rat \<Rightarrow> js_number" where
  "to_double x =
     (let y = round64 x
      in if 2 ^ 1024 \<le> y then PosInf else if y \<le> - (2 ^ 1024) then NegInf else Fin y)"

text \<open>\<^verbatim>\<open>a + b\<close>\<close>

fun js_add :: "js_number \<Rightarrow> js_number \<Rightarrow> js_number" where
  "js_add (Fin x) (Fin y) = to_double (x + y)"
| "js_add NaN b = NaN"
| "js_add a NaN = NaN"
| "js_add PosInf NegInf = NaN"
| "js_add NegInf PosInf = NaN"
| "js_add PosInf b = PosInf"
| "js_add a PosInf = PosInf"
| "js_add NegInf b = NegInf"
| "js_add a NegInf = NegInf"

text \<open>\<^verbatim>\<open>a * b\<close>\<close>

fun js_mul :: "js_number \<Rightarrow> js_number \<Rightarrow> js_number" where
  "js_mul (Fin x) (Fin y) = to_double (x * y)"
| "js_mul NaN b = NaN"
| "js_mul a NaN = NaN"
| "js_mul PosInf (Fin y) = (if y = 0 then NaN else if 0 < y then PosInf else NegInf)"
| "js_mul NegInf (Fin y) = (if y = 0 then NaN else if 0 < y then NegInf else PosInf)"
| "js_mul (Fin x) PosInf = (if x = 0 then NaN else if 0 < x then PosInf else NegInf)"
| "js_mul (Fin x) NegInf = (if x = 0 then NaN else if 0 < x then NegInf else PosInf)"
| "js_mul PosInf PosInf = PosInf"
| "js_mul NegInf NegInf = PosInf"
| "js_mul PosInf NegInf = NegInf"
| "js_mul NegInf PosInf = NegInf"

text \<open>\<^verbatim>\<open>a / b\<close>. A zero divisor is taken as \<open>+0\<close>; \<^verbatim>\<open>download\<close> divides by
  \<^verbatim>\<open>contentLength\<close> only under \<^verbatim>\<open>if (contentLength)\<close>, which no zero passes.\<close>

fun js_div :: "js_number \<Rightarrow> js_number \<Rightarrow> js_number" where
  "js_div (Fin x) (Fin y) =
     (if y = 0 then (if x = 0 then NaN else if 0 < x then PosInf else NegInf)
      else to_double (x / y))"
| "js_div NaN b = NaN"
| "js_div a NaN = NaN"
| "js_div (Fin x) b = Fin 0"
| "js_div PosInf (Fin y) = (if 0 \<le> y then PosInf else NegInf)"
| "js_div NegInf (Fin y) = (if 0 \<le> y then NegInf else PosInf)"
| "js_div a b = NaN"

text \<open>\<^verbatim>\<open>Math.round(a)\<close>: the nearest integer, a tie going up.\<close>

fun math_round :: "js_number \<Rightarrow> js_number" where
  "math_round (Fin x) = Fin (of_int \<lfloor>x + 1 / 2\<rfloor>)"
| "math_round a = a"

text \<open>The truth value of a number in \<^verbatim>\<open>if (contentLength)\<close>.\<close>

fun truthy :: "js_number \<Rightarrow> bool" where
  "truthy NaN = False"
| "truthy (Fin x) = (x \<noteq> 0)"
| "truthy a = True"

text \<open>\<^verbatim>\<open>a <= b\<close>\<close>

fun js_le :: "js_number \<Rightarrow> js_number \<Rightarrow> bool" where
  "js_le (Fin x) (Fin y) = (x \<le> y)"
| "js_le NaN b = False"
| "js_le a NaN = False"
| "js_le NegInf b = True"
| "js_le a PosInf = True"
| "js_le a b = False"

text \<open>Truncation towards zero, as \<^verbatim>\<open>ToIntegerOrInfinity\<close> does on a finite number.\<close>

definition to_integer :: "rat \<Rightarrow> int" where
  "to_integer x = (if 0 \<le> x then \<lfloor>x\<rfloor> else \<lceil>x\<rceil>)"

text \<open>A number that binary64 holds exactly.\<close>

definition is_double :: "js_number \<Rightarrow> bool" where
  "is_double r = (case r of Fin x \<Rightarrow> to_double x = Fin x | _ \<Rightarrow> True)"

text \<open>\<open>r\<close> is what \<^verbatim>\<open>receivedLength\<close> holds when \<open>n\<close> bytes were received: \<open>n\<close> itself
  up to \<open>2\<^sup>5\<^sup>3\<close>, where every integer is a binary64 value, and something not below
  \<open>2\<^sup>5\<^sup>3\<close> beyond.\<close>

definition tracks :: "nat \<Rightarrow> js_number \<Rightarrow> bool" where
  "tracks n r = (if n \<le> 2 ^ 53 then r = Fin (of_nat n) else js_le (Fin (2 ^ 53)) r)"

subsection \<open>The unary plus on a header value\<close>

text \<open>
  \<^verbatim>\<open>+response.headers.get('Content-Length')\<close>: \<^verbatim>\<open>get\<close> yields a string or \<^verbatim>\<open>null\<close>;
  \<^verbatim>\<open>+null\<close> is \<open>0\<close>, and a string goes through the language's \<^verbatim>\<open>StringToNumber\<close>: white
  space is trimmed, the empty string is \<open>0\<close>, then a binary, octal or hexadecimal integer
  without sign, or a signed decimal literal or \<^verbatim>\<open>Infinity\<close>; anything else is NaN.
\<close>

definition is_ws :: "char \<Rightarrow> bool" where
  "is_ws c = ((of_char c :: nat) \<in> {9, 10, 11, 12, 13, 32, 160})"

definition trim :: "string \<Rightarrow> string" where
  "trim s = rev (dropWhile is_ws (rev (dropWhile is_ws s)))"

definition digit_of :: "char \<Rightarrow> nat" where
  "digit_of c =
     (let n = (of_char c :: nat)
      in if 48 \<le> n \<and> n \<le> 57 then n - 48
         else if 97 \<le> n \<and> n \<le> 102 then n - 87
         else if 65 \<le> n \<and> n \<le> 70 then n - 55
         else 16)"

definition is_digit :: "char \<Rightarrow> bool" where
  "is_digit c = (digit_of c < 10)"

definition radix_val :: "nat \<Rightarrow> string \<Rightarrow> nat" where
  "radix_val b ds = foldl (\<lambda>n c. b * n + digit_of c) 0 ds"

definition nondecimal :: "string \<Rightarrow> nat option" where
  "nondecimal t =
     (case t of
        z # x # ds \<Rightarrow>
          (let b = (if x = CHR ''x'' \<or> x = CHR ''X'' then 16
                    else if x = CHR ''o'' \<or> x = CHR ''O'' then 8
                    else if x = CHR ''b'' \<or> x = CHR ''B'' then 2 else 0)
           in if z = CHR ''0'' \<and> b \<noteq> 0 \<and> ds \<noteq> [] \<and> list_all (\<lambda>c. digit_of c < b) ds
              then Some (radix_val b ds) else None)
      | _ \<Rightarrow> None)"

definition exponent_part :: "string \<Rightarrow> int option" where
  "exponent_part s =
     (case s of
        [] \<Rightarrow> Some 0
      | e # r \<Rightarrow>
          (if e = CHR ''e'' \<or> e = CHR ''E'' then
             (let (neg, ds) = (case r of
                                 sg # r' \<Rightarrow> (if sg = CHR ''-'' then (True, r')
                                             else if sg = CHR ''+'' then (False, r')
                                             else (False, r))
                               | [] \<Rightarrow> (False, r))
              in if ds \<noteq> [] \<and> list_all is_digit ds
                 then Some (if neg then - int (radix_val 10 ds) else int (radix_val 10 ds))
                 else None)
           else None))"

definition unsigned_decimal :: "string \<Rightarrow> rat option" where
  "unsigned_decimal s =
     (let ip = takeWhile is_digit s;
          r1 = dropWhile is_digit s;
          (fp, r2) = (case r1 of
                        dot # t \<Rightarrow> (if dot = CHR ''.''
                                     then (takeWhile is_digit t, dropWhile is_digit t)
                                     else ([], r1))
                      | [] \<Rightarrow> ([], r1))
      in if ip = [] \<and> fp = [] then None
         else (case exponent_part r2 of
                 None \<Rightarrow> None
               | Some e \<Rightarrow>
                   Some ((of_nat (radix_val 10 ip) + of_nat (radix_val 10 fp) / 10 ^ length fp)
                         * 10 powi e)))"

definition string_to_number :: "string \<Rightarrow> js_number" where
  "string_to_number s =
     (let t = trim s
      in if t = [] then Fin 0
         else (case nondecimal t of
                 Some n \<Rightarrow> to_double (of_nat n)
               | None \<Rightarrow>
                   (let (neg, u) = (case t of
                                      sg # r \<Rightarrow> (if sg = CHR ''-'' then (True, r)
                                                 else if sg = CHR ''+'' then (False, r)
                                                 else (False, t))
                                    | [] \<Rightarrow> (False, t))
                    in if u = ''Infinity'' then (if neg then NegInf else PosInf)
                       else (case unsigned_decimal u of
                               None \<Rightarrow> NaN
                             | Some q \<Rightarrow> to_double (if neg then - q else q)))))"

definition to_number :: "string option \<Rightarrow> js_number" where
  "to_number h = (case h of None \<Rightarrow> Fin 0 | Some s \<Rightarrow> string_to_number s)"

text \<open>A natural number in a template literal: its decimal digits.\<close>

fun show_nat :: "nat \<Rightarrow> string" where
  "show_nat n =
     (if n < 10 then [''0123456789'' ! n]
      else show_nat (n div 10) @ [''0123456789'' ! (n mod 10)])"

declare show_nat.simps [simp del]

section \<open>The Downloader session and the platform it runs on\<close>

text \<open>
  The class \<^verbatim>\<open>Downloader\<close> of \<^verbatim>\<open>src/downloader.js\<close> has three fields, set by its
  constructor to \<^verbatim>\<open>null\<close>, \<^verbatim>\<open>false\<close> and \<^verbatim>\<open>null\<close>. An \<^verbatim>\<open>AbortController\<close> is
  named by the index it got when it was created; an object URL likewise.
\<close>

record downloader =
  controller :: "nat option"
  isPaused :: bool
  blobUrl :: "nat option"

definition new_downloader :: downloader where
  "new_downloader = \<lparr>controller = None, isPaused = False, blobUrl = None\<rparr>"

type_synonym byte = "8 word"

text \<open>A \<^verbatim>\<open>Blob\<close>: its bytes and the \<^verbatim>\<open>type\<close> option handed to its constructor.\<close>

record blob =
  bytes :: "byte list"
  btype :: "string option"

text \<open>What the session does to the outside world, in the order it does it: the calls to
  \<^verbatim>\<open>fetch\<close>, \<^verbatim>\<open>abort\<close>, \<^verbatim>\<open>URL.revokeObjectURL\<close> and \<^verbatim>\<open>URL.createObjectURL\<close>, and the
  calls of the four callbacks with their arguments.\<close>

datatype event =
    Fetch string "(string \<times> string) list" nat
  | Abort nat
  | Revoke nat
  | Create nat
  | Started
  | Progress js_number
  | Success nat "string option"
  | Failed string string

text \<open>
  The platform: for every \<^verbatim>\<open>AbortController\<close> created so far whether its signal is
  aborted; for every object URL created so far the blob behind it, \<open>None\<close> once the URL is
  revoked; the longest typed array the engine will allocate; and the trace of events.
\<close>

record platform =
  controllers :: "bool list"
  objects :: "blob option list"
  max_length :: nat
  trace :: "event list"

type_synonym state = "downloader \<times> platform"

definition emit :: "event \<Rightarrow> platform \<Rightarrow> platform" where
  "emit e p = p\<lparr>trace := trace p @ [e]\<rparr>"

text \<open>The events of a run that started on \<open>p\<close> and ended on \<open>p'\<close>.\<close>

definition emitted :: "platform \<Rightarrow> platform \<Rightarrow> event list" where
  "emitted p p' = drop (length (trace p)) (trace p')"

text \<open>\<^verbatim>\<open>new AbortController()\<close>\<close>

definition new_AbortController :: "platform \<Rightarrow> nat \<times> platform" where
  "new_AbortController p =
     (length (controllers p), p\<lparr>controllers := controllers p @ [False]\<rparr>)"

text \<open>\<^verbatim>\<open>controller.abort()\<close>\<close>

definition abort :: "nat \<Rightarrow> platform \<Rightarrow> platform" where
  "abort c p = emit (Abort c) (p\<lparr>controllers := (controllers p)[c := True]\<rparr>)"

text \<open>\<^verbatim>\<open>signal.aborted\<close>\<close>

definition aborted :: "nat \<Rightarrow> platform \<Rightarrow> bool" where
  "aborted c p = (c < length (controllers p) \<and> controllers p ! c)"

text \<open>\<^verbatim>\<open>URL.createObjectURL(blob)\<close>: a URL that was never handed out before.\<close>

definition createObjectURL :: "blob \<Rightarrow> platform \<Rightarrow> nat \<times> platform" where
  "createObjectURL b p =
     (length (objects p), emit (Create (length (objects p))) (p\<lparr>objects := objects p @ [Some b]\<rparr>))"

text \<open>\<^verbatim>\<open>URL.revokeObjectURL(url)\<close>: nothing happens to a URL that is not registered.\<close>

definition revokeObjectURL :: "nat \<Rightarrow> platform \<Rightarrow> platform" where
  "revokeObjectURL u p = emit (Revoke u) (p\<lparr>objects := (objects p)[u := None]\<rparr>)"

text \<open>The blob a URL resolves to, if the URL is live.\<close>

definition resolve :: "nat \<Rightarrow> platform \<Rightarrow> blob option" where
  "resolve u p = (if u < length (objects p) then objects p ! u else None)"

subsection \<open>stop and cleanup\<close>

text \<open>
  \<^verbatim>\<open>
  stop () {
      if (this.controller) { this.controller.abort(); this.controller = null; }
      if (this.blobUrl) { URL.revokeObjectURL(this.blobUrl); this.blobUrl = null; }
  }
  \<close>
\<close>

definition stop :: "state \<Rightarrow> state" where
  "stop dp =
     (let (d, p) = dp;
          (d, p) = (case controller d of
                      Some c \<Rightarrow> (d\<lparr>controller := None\<rparr>, abort c p)
                    | None \<Rightarrow> (d, p));
          (d, p) = (case blobUrl d of
                      Some u \<Rightarrow> (d\<lparr>blobUrl := None\<rparr>, revokeObjectURL u p)
                    | None \<Rightarrow> (d, p))
      in (d, p))"

text \<open>
  \<^verbatim>\<open>
  cleanup () {
      this.stop();
      if (this.blobUrl) { URL.revokeObjectURL(this.blobUrl); this.blobUrl = null; }
  }
  \<close>
\<close>

definition cleanup :: "state \<Rightarrow> state" where
  "cleanup dp =
     (let (d, p) = stop dp;
          (d, p) = (case blobUrl d of
                      Some u \<Rightarrow> (d\<lparr>blobUrl := None\<rparr>, revokeObjectURL u p)
                    | None \<Rightarrow> (d, p))
      in (d, p))"

text \<open>Whether the second release in \<^verbatim>\<open>cleanup\<close> runs: the value of its guard after
  \<^verbatim>\<open>this.stop()\<close>.\<close>

definition cleanup_guard :: "state \<Rightarrow> bool" where
  "cleanup_guard dp = (blobUrl (fst (stop dp)) \<noteq> None)"

section \<open>download\<close>

subsection \<open>Errors\<close>

text \<open>A thrown value: an error object with its \<^verbatim>\<open>name\<close> and its \<^verbatim>\<open>message\<close>, or \<^verbatim>\<open>null\<close> or
  \<^verbatim>\<open>undefined\<close>, which a callback may throw as well and which has no properties to read.
  The wording of the messages of the platform's own errors is the engine's; the code reads
  only \<^verbatim>\<open>name\<close> of an abort.\<close>

datatype js_error = JsError (name: string) (message: string) | Nullish

definition abort_error :: js_error where
  "abort_error = JsError ''AbortError'' ''signal is aborted without reason''"

definition type_error :: "string \<Rightarrow> js_error" where
  "type_error m = JsError ''TypeError'' m"

definition range_error :: js_error where
  "range_error = JsError ''RangeError'' ''Invalid typed array length''"

text \<open>What \<^verbatim>\<open>error.name\<close> throws when \<^verbatim>\<open>error\<close> is \<^verbatim>\<open>null\<close> or \<^verbatim>\<open>undefined\<close>.\<close>

definition null_error :: js_error where
  "null_error = type_error ''Cannot read properties of null''"

text \<open>\<^verbatim>\<open>new Error(`HTTP error! status: ${response.status}`)\<close>\<close>

definition http_error :: "nat \<Rightarrow> js_error" where
  "http_error st = JsError ''Error'' (''HTTP error! status: '' @ show_nat st)"

subsection \<open>Callbacks\<close>

text \<open>
  A callback runs with the session as \<^verbatim>\<open>this\<close>. Its body is taken by what it does to the
  session: the calls of \<^verbatim>\<open>this.stop()\<close> and \<^verbatim>\<open>this.cleanup()\<close> it makes, in order, and the
  error it throws at its end, if any. An option that is absent or not a function is \<open>None\<close>.
\<close>

datatype call = CallStop | CallCleanup

type_synonym behaviour = "call list \<times> js_error option"

record options =
  headers :: "(string \<times> string) list option"
  started :: "behaviour option"
  progress :: "(js_number \<Rightarrow> behaviour) option"
  success :: "(nat \<Rightarrow> string option \<Rightarrow> behaviour) option"
  failed :: "(string \<Rightarrow> string \<Rightarrow> behaviour) option"

definition run_call :: "call \<Rightarrow> state \<Rightarrow> state" where
  "run_call c dp = (case c of CallStop \<Rightarrow> stop dp | CallCleanup \<Rightarrow> cleanup dp)"

definition invoke :: "behaviour \<Rightarrow> state \<Rightarrow> js_error option \<times> state" where
  "invoke b dp = (snd b, fold run_call (fst b) dp)"

subsection \<open>The network\<close>

text \<open>
  What the reads of the response body settle with, one \<^verbatim>\<open>await reader.read()\<close> after the
  other: a chunk, or a rejection with an error. The end of the list is \<^verbatim>\<open>done\<close>. Between two
  reads the caller of \<^verbatim>\<open>download\<close> may run: \<open>External\<close> is a call it makes on the session
  while the next read is pending.

  What a read settles with once the signal is aborted is the platform's to say, and so the
  list's: the loop of \<^verbatim>\<open>download\<close> never looks at the signal. A platform that follows the
  Fetch standard rejects the read with its \<^verbatim>\<open>AbortError\<close> (\<open>ReadError abort_error\<close>), unless
  the stream was closed before the abort; then the read is \<^verbatim>\<open>done\<close>. Every read of the
  list settles: a run in which a read stays pending for ever has no result to speak of.
\<close>

datatype step = Chunk "byte list" | ReadError js_error | External call

record response =
  status :: nat
  content_type :: "string option"
  content_length :: "string option"
  body :: "step list option"

text \<open>\<^verbatim>\<open>response.ok\<close>\<close>

definition ok :: "response \<Rightarrow> bool" where
  "ok r = (200 \<le> status r \<and> status r \<le> 299)"

datatype fetch_outcome = NetworkError string | Response response

text \<open>What \<^verbatim>\<open>fetch\<close> meets: the calls made on the session while the request is pending,
  and how the request ends if it is not aborted.\<close>

record network =
  pending :: "call list"
  outcome :: fetch_outcome

text \<open>\<^verbatim>\<open>await fetch(url, {headers, signal})\<close>: rejected with an \<^verbatim>\<open>AbortError\<close> when the signal
  is aborted before the response is there.\<close>

definition fetch ::
  "string \<Rightarrow> (string \<times> string) list \<Rightarrow> nat \<Rightarrow> network \<Rightarrow> state \<Rightarrow> (js_error + response) \<times> state" where
  "fetch url hs sig net dp =
     (let dp = (fst dp, emit (Fetch url hs sig) (snd dp))
      in if aborted sig (snd dp) then (Inl abort_error, dp)
         else (let dp = fold run_call (pending net) dp
               in if aborted sig (snd dp) then (Inl abort_error, dp)
                  else (case outcome net of
                          NetworkError m \<Rightarrow> (Inl (type_error m), dp)
                        | Response r \<Rightarrow> (Inr r, dp))))"

subsection \<open>Typed arrays\<close>

text \<open>\<^verbatim>\<open>value.length\<close>\<close>

definition array_length :: "byte list \<Rightarrow> js_number" where
  "array_length v = to_double (of_nat (length v))"

text \<open>\<^verbatim>\<open>new Uint8Array(n)\<close>: zeros, or a \<^verbatim>\<open>RangeError\<close> for a length that is negative or
  beyond what the engine allocates (never more than \<open>2\<^sup>5\<^sup>3 - 1\<close>).\<close>

definition new_Uint8Array :: "nat \<Rightarrow> js_number \<Rightarrow> js_error + byte list" where
  "new_Uint8Array limit n =
     (case n of
        NaN \<Rightarrow> Inr []
      | Fin x \<Rightarrow>
          (let i = to_integer x
           in if i < 0 \<or> int (min limit (2 ^ 53 - 1)) < i then Inl range_error
              else Inr (replicate (nat i) 0))
      | _ \<Rightarrow> Inl range_error)"

text \<open>\<^verbatim>\<open>target.set(source, offset)\<close>: a \<^verbatim>\<open>RangeError\<close> when the source does not fit.\<close>

definition typed_array_set :: "byte list \<Rightarrow> byte list \<Rightarrow> js_number \<Rightarrow> js_error + byte list" where
  "typed_array_set target source offset =
     (case (case offset of NaN \<Rightarrow> Some 0 | Fin x \<Rightarrow> Some (to_integer x) | _ \<Rightarrow> None) of
        None \<Rightarrow> Inl range_error
      | Some i \<Rightarrow>
          if i < 0 \<or> length target < length source + nat i then Inl range_error
          else Inr (take (nat i) target @ source @ drop (nat i + length source) target))"

subsection \<open>The body of download\<close>

text \<open>\<^verbatim>\<open>Math.round((receivedLength / contentLength) * 100)\<close>\<close>

definition percent_of :: "js_number \<Rightarrow> js_number \<Rightarrow> js_number" where
  "percent_of receivedLength contentLength =
     math_round (js_mul (js_div receivedLength contentLength) (Fin 100))"

text \<open>
  \<^verbatim>\<open>
  if (contentLength) {
      const percent = Math.round((receivedLength / contentLength) * 100);
      if (options.progress && typeof options.progress === 'function') {
          options.progress.call(this, percent);
      }
  }
  \<close>
\<close>

definition report :: "options \<Rightarrow> js_number \<Rightarrow> js_number \<Rightarrow> state \<Rightarrow> js_error option \<times> state" where
  "report opts contentLength receivedLength dp =
     (if truthy contentLength then
        (let percent = percent_of receivedLength contentLength
         in case progress opts of
              Some f \<Rightarrow> invoke (f percent) (fst dp, emit (Progress percent) (snd dp))
            | None \<Rightarrow> (None, dp))
      else (None, dp))"

text \<open>
  The \<^verbatim>\<open>while (true)\<close> loop over \<^verbatim>\<open>await reader.read()\<close>, lines 69 to 87, with \<^verbatim>\<open>chunks\<close>
  and \<^verbatim>\<open>receivedLength\<close> as accumulator: it leaves at \<^verbatim>\<open>done\<close>, at a rejected read and at a
  \<^verbatim>\<open>progress\<close> callback that throws, and nowhere else.
\<close>

fun read_loop ::
  "options \<Rightarrow> js_number \<Rightarrow> step list \<Rightarrow> byte list list \<times> js_number \<Rightarrow> state
     \<Rightarrow> (js_error + byte list list \<times> js_number) \<times> state" where
  "read_loop opts contentLength [] acc dp = (Inr acc, dp)"
| "read_loop opts contentLength (External c # rest) acc dp =
     read_loop opts contentLength rest acc (run_call c dp)"
| "read_loop opts contentLength (ReadError e # rest) acc dp = (Inl e, dp)"
| "read_loop opts contentLength (Chunk v # rest) acc dp =
     (let chunks = fst acc @ [v];
          receivedLength = js_add (snd acc) (array_length v)
      in case report opts contentLength receivedLength dp of
           (Some e, dp) \<Rightarrow> (Inl e, dp)
         | (None, dp) \<Rightarrow> read_loop opts contentLength rest (chunks, receivedLength) dp)"

text \<open>
  \<^verbatim>\<open>
  let position = 0;
  for (const chunk of chunks) {
      allChunks.set(chunk, position);
      position += chunk.length;
  }
  \<close>
\<close>

fun combine :: "byte list list \<Rightarrow> byte list \<Rightarrow> js_number \<Rightarrow> js_error + byte list" where
  "combine [] allChunks position = Inr allChunks"
| "combine (chunk # rest) allChunks position =
     (case typed_array_set allChunks chunk position of
        Inl e \<Rightarrow> Inl e
      | Inr a \<Rightarrow> combine rest a (js_add position (array_length chunk)))"

text \<open>Lines 89 to 114: from the release of the old blob URL to \<^verbatim>\<open>return this.blobUrl\<close>.\<close>

definition finish ::
  "options \<Rightarrow> string option \<Rightarrow> byte list list \<times> js_number \<Rightarrow> state \<Rightarrow> (js_error + nat option) \<times> state" where
  "finish opts contentType acc dp =
     (let d = fst dp;
          p = (case blobUrl d of Some u \<Rightarrow> revokeObjectURL u (snd dp) | None \<Rightarrow> snd dp)
      in case new_Uint8Array (max_length p) (snd acc) of
           Inl e \<Rightarrow> (Inl e, (d, p))
         | Inr zeros \<Rightarrow>
             (case combine (fst acc) zeros (Fin 0) of
                Inl e \<Rightarrow> (Inl e, (d, p))
              | Inr allChunks \<Rightarrow>
                  (let (u, p) = createObjectURL \<lparr>bytes = allChunks, btype = contentType\<rparr> p;
                       d = d\<lparr>blobUrl := Some u\<rparr>
                   in case success opts of
                        Some f \<Rightarrow>
                          (case invoke (f u contentType) (d, emit (Success u contentType) p) of
                             (Some e, dp) \<Rightarrow> (Inl e, dp)
                           | (None, dp) \<Rightarrow> (Inr (blobUrl (fst dp)), dp))
                      | None \<Rightarrow> (Inr (blobUrl d), (d, p)))))"

text \<open>The \<^verbatim>\<open>try\<close> block, with \<open>sig\<close> the signal of the controller made just before it.\<close>

definition try_block ::
  "string \<Rightarrow> options \<Rightarrow> network \<Rightarrow> nat \<Rightarrow> state \<Rightarrow> (js_error + nat option) \<times> state" where
  "try_block url opts net sig dp =
     (let hs = (case headers opts of Some h \<Rightarrow> h | None \<Rightarrow> [])
      in case (case started opts of
                 Some b \<Rightarrow> invoke b (fst dp, emit Started (snd dp))
               | None \<Rightarrow> (None, dp)) of
           (Some e, dp) \<Rightarrow> (Inl e, dp)
         | (None, dp) \<Rightarrow>
             (case fetch url hs sig net dp of
                (Inl e, dp) \<Rightarrow> (Inl e, dp)
              | (Inr response, dp) \<Rightarrow>
                  if \<not> ok response then (Inl (http_error (status response)), dp)
                  else (let contentType = content_type response
                        in case body response of
                             None \<Rightarrow> (Inl (type_error ''response.body is null''), dp)
                           | Some reader \<Rightarrow>
                               (let contentLength = to_number (content_length response)
                                in case read_loop opts contentLength reader ([], Fin 0) dp of
                                     (Inl e, dp) \<Rightarrow> (Inl e, dp)
                                   | (Inr acc, dp) \<Rightarrow> finish opts contentType acc dp))))"

text \<open>
  \<^verbatim>\<open>
  catch (error) {
      if (options.failed && typeof options.failed === 'function') {
          if (error.name === 'AbortError') {
              options.failed.call(this, 'ABORTED', 'Download was stopped');
          } else {
              options.failed.call(this, 'ERROR', error.message);
          }
      }
      throw error;
  }
  \<close>
  Reading \<^verbatim>\<open>error.name\<close> of \<^verbatim>\<open>null\<close> or \<^verbatim>\<open>undefined\<close> throws a \<^verbatim>\<open>TypeError\<close> out of the
  \<^verbatim>\<open>catch\<close> block.
\<close>

definition catch_block :: "options \<Rightarrow> js_error \<Rightarrow> state \<Rightarrow> (js_error + nat option) \<times> state" where
  "catch_block opts error dp =
     (case failed opts of
        Some f \<Rightarrow>
          (case error of
             Nullish \<Rightarrow> (Inl null_error, dp)
           | JsError error_name error_message \<Rightarrow>
               (let (kind, msg) = (if error_name = ''AbortError''
                                   then (''ABORTED'', ''Download was stopped'')
                                   else (''ERROR'', error_message))
                in case invoke (f kind msg) (fst dp, emit (Failed kind msg) (snd dp)) of
                     (Some e, dp) \<Rightarrow> (Inl e, dp)
                   | (None, dp) \<Rightarrow> (Inl error, dp)))
      | None \<Rightarrow> (Inl error, dp))"

text \<open>\<^verbatim>\<open>async download (url, options = {})\<close>, run until its promise settles: \<open>Inr\<close> the
  value it resolves to, \<open>Inl\<close> the error it is rejected with.\<close>

definition download ::
  "string \<Rightarrow> options \<Rightarrow> network \<Rightarrow> state \<Rightarrow> (js_error + nat option) \<times> state" where
  "download url opts net dp =
     (let (sig, p) = new_AbortController (snd dp);
          d = (fst dp)\<lparr>controller := Some sig\<rparr>
      in case try_block url opts net sig (d, p) of
           (Inl error, dp) \<Rightarrow> catch_block opts error dp
         | (Inr url, dp) \<Rightarrow> (Inr url, dp))"

section \<open>Notions for the properties\<close>

subsection \<open>Reading a trace\<close>

text \<open>The arguments of the calls of \<^verbatim>\<open>progress\<close>, of \<^verbatim>\<open>failed\<close> and of \<^verbatim>\<open>success\<close> in a list of
  events, in the order of the calls, and the object URLs created.\<close>

definition progress_values :: "event list \<Rightarrow> js_number list" where
  "progress_values es = concat (map (\<lambda>e. case e of Progress x \<Rightarrow> [x] | _ \<Rightarrow> []) es)"

definition failed_calls :: "event list \<Rightarrow> (string \<times> string) list" where
  "failed_calls es = concat (map (\<lambda>e. case e of Failed k m \<Rightarrow> [(k, m)] | _ \<Rightarrow> []) es)"

definition success_calls :: "event list \<Rightarrow> (nat \<times> string option) list" where
  "success_calls es = concat (map (\<lambda>e. case e of Success u t \<Rightarrow> [(u, t)] | _ \<Rightarrow> []) es)"

definition created :: "event list \<Rightarrow> nat list" where
  "created es = concat (map (\<lambda>e. case e of Create u \<Rightarrow> [u] | _ \<Rightarrow> []) es)"

text \<open>Events of the first part of a transfer only: calls of \<^verbatim>\<open>started\<close>, \<^verbatim>\<open>fetch\<close> and
  \<^verbatim>\<open>progress\<close>.\<close>

definition quiet :: "event list \<Rightarrow> bool" where
  "quiet es =
     list_all (\<lambda>e. case e of Started \<Rightarrow> True | Fetch u h c \<Rightarrow> True | Progress x \<Rightarrow> True | _ \<Rightarrow> False) es"

text \<open>Events of \<^verbatim>\<open>stop()\<close> only: no call of a callback is among them.\<close>

definition plain :: "event list \<Rightarrow> bool" where
  "plain es = list_all (\<lambda>e. case e of Abort c \<Rightarrow> True | Revoke u \<Rightarrow> True | _ \<Rightarrow> False) es"

subsection \<open>Bodies and lengths\<close>

text \<open>The chunks of a body, and the values \<^verbatim>\<open>receivedLength\<close> takes after each of them.\<close>

definition chunks_of :: "step list \<Rightarrow> byte list list" where
  "chunks_of steps = concat (map (\<lambda>s. case s of Chunk v \<Rightarrow> [v] | _ \<Rightarrow> []) steps)"

fun cumulative :: "js_number \<Rightarrow> byte list list \<Rightarrow> js_number list" where
  "cumulative r [] = []"
| "cumulative r (v # vs) = js_add r (array_length v) # cumulative (js_add r (array_length v)) vs"

text \<open>The numbers of bytes received after each chunk, from \<open>n\<close> on.\<close>

fun received :: "nat \<Rightarrow> byte list list \<Rightarrow> nat list" where
  "received n [] = []"
| "received n (v # vs) = (n + length v) # received (n + length v) vs"

text \<open>The error of the first read of a body that is rejected, if one is.\<close>

fun rejection :: "step list \<Rightarrow> js_error option" where
  "rejection [] = None"
| "rejection (ReadError e # steps) = Some e"
| "rejection (Chunk v # steps) = rejection steps"
| "rejection (External c # steps) = rejection steps"

text \<open>What the progress callback is called with when \<^verbatim>\<open>receivedLength\<close> takes the values
  \<open>rs\<close>: nothing without the callback or with a falsy \<^verbatim>\<open>contentLength\<close>. And the calls of a
  transfer that reads its body to the end.\<close>

definition reported :: "options \<Rightarrow> js_number \<Rightarrow> js_number list \<Rightarrow> js_number list" where
  "reported opts contentLength rs =
     (if truthy contentLength \<and> progress opts \<noteq> None
      then map (\<lambda>r. percent_of r contentLength) rs else [])"

definition all_reports :: "options \<Rightarrow> network \<Rightarrow> js_number list" where
  "all_reports opts net =
     (case outcome net of
        NetworkError m \<Rightarrow> []
      | Response r \<Rightarrow>
          (case body r of
             None \<Rightarrow> []
           | Some steps \<Rightarrow>
               reported opts (to_number (content_length r)) (cumulative (Fin 0) (chunks_of steps))))"

subsection \<open>The percentage of the specification\<close>

text \<open>
  \<open>round(r / L * 100)\<close> on the numbers themselves, with no rounding of the quotient or of
  the product, a tie going up. It is what the percentage of the code,
  \<^const>\<open>percent_of\<close>, is compared with.
\<close>

definition spec_percent :: "nat \<Rightarrow> nat \<Rightarrow> int" where
  "spec_percent r L = \<lfloor>(of_nat r / of_nat L :: rat) * 100 + 1 / 2\<rfloor>"

text \<open>\<open>r / L * 100\<close> lies exactly halfway between two integers: \<open>r / L * 100 + 1 / 2\<close> is an
  integer.\<close>

definition halfway :: "nat \<Rightarrow> nat \<Rightarrow> bool" where
  "halfway r L = ((200 * r + L) mod (2 * L) = 0)"

subsection \<open>The states of a transfer\<close>

text \<open>A state with more events in its trace.\<close>

definition log :: "event list \<Rightarrow> state \<Rightarrow> state" where
  "log es dp = (fst dp, (snd dp)\<lparr>trace := trace (snd dp) @ es\<rparr>)"

text \<open>The state after lines 36 and 37 of \<^verbatim>\<open>download\<close>: a new controller, kept in the field.\<close>

definition begun :: "state \<Rightarrow> state" where
  "begun dp = ((fst dp)\<lparr>controller := Some (length (controllers (snd dp)))\<rparr>,
               (snd dp)\<lparr>controllers := controllers (snd dp) @ [False]\<rparr>)"

text \<open>The session holds the controller of the signal \<open>sig\<close>, not aborted; and the session
  after a \<^verbatim>\<open>stop()\<close> that aborted it.\<close>

definition active :: "nat \<Rightarrow> state \<Rightarrow> bool" where
  "active sig dp =
     (controller (fst dp) = Some sig \<and> sig < length (controllers (snd dp)) \<and> \<not> aborted sig (snd dp))"

definition stopped :: "nat \<Rightarrow> state \<Rightarrow> bool" where
  "stopped sig dp =
     (controller (fst dp) = None \<and> blobUrl (fst dp) = None \<and> aborted sig (snd dp))"

text \<open>Lines 90 to 92: the platform after the session's blob URL is revoked, the field left
  as it is. And lines 90 to 107: the state after that and after the new object URL for the
  chunks \<open>vs\<close> is created and stored.\<close>

definition released :: "state \<Rightarrow> platform" where
  "released dp = (case blobUrl (fst dp) of Some u \<Rightarrow> revokeObjectURL u (snd dp) | None \<Rightarrow> snd dp)"

definition published :: "string option \<Rightarrow> byte list list \<Rightarrow> state \<Rightarrow> state" where
  "published ct vs dp =
     ((fst dp)\<lparr>blobUrl := Some (length (objects (snd dp)))\<rparr>,
      snd (createObjectURL \<lparr>bytes = concat vs, btype = ct\<rparr> (released dp)))"

text \<open>The events of a \<^verbatim>\<open>stop()\<close> on a state, and those of lines 90 to 92.\<close>

definition stop_events :: "state \<Rightarrow> event list" where
  "stop_events dp =
     (case controller (fst dp) of Some c \<Rightarrow> [Abort c] | None \<Rightarrow> [])
     @ (case blobUrl (fst dp) of Some u \<Rightarrow> [Revoke u] | None \<Rightarrow> [])"

definition release_events :: "state \<Rightarrow> event list" where
  "release_events dp = (case blobUrl (fst dp) of Some u \<Rightarrow> [Revoke u] | None \<Rightarrow> [])"

text \<open>
  The state of a transfer before its stream is complete: the events \<open>es\<close> were logged, and
  then, if \<open>t\<close> is \<open>Some es'\<close>, a first \<^verbatim>\<open>stop()\<close> was called and the events \<open>es'\<close> were logged
  after it. (Any further \<^verbatim>\<open>stop()\<close> changes nothing.)
\<close>

definition rest :: "event list option \<Rightarrow> event list" where
  "rest t = (case t of None \<Rightarrow> [] | Some es \<Rightarrow> es)"

definition went :: "event list \<Rightarrow> event list option \<Rightarrow> state \<Rightarrow> state" where
  "went es t dp = (case t of None \<Rightarrow> log es dp | Some es' \<Rightarrow> log es' (stop (log es dp)))"

text \<open>The field \<^verbatim>\<open>controller\<close> holds the controller of \<open>sig\<close> as long as the trace, from its
  \<open>n\<close>-th event on, has no abort of it, and null from then on.\<close>

definition held :: "nat \<Rightarrow> nat \<Rightarrow> state \<Rightarrow> bool" where
  "held sig n dp =
     (n \<le> length (trace (snd dp))
      \<and> controller (fst dp) = (if Abort sig \<in> set (drop n (trace (snd dp))) then None else Some sig))"

text \<open>The arguments \<^verbatim>\<open>failed\<close> is called with for an error of this name and message (lines
  119 to 123).\<close>

definition kind_of :: "string \<Rightarrow> string \<Rightarrow> string \<times> string" where
  "kind_of n m = (if n = ''AbortError'' then (''ABORTED'', ''Download was stopped'') else (''ERROR'', m))"

subsection \<open>Sessions, options and networks of the examples\<close>

text \<open>A platform on which nothing has happened yet; no options at all; a callback that
  does nothing.\<close>

definition p0 :: platform where
  "p0 = \<lparr>controllers = [], objects = [], max_length = 2 ^ 32, trace = []\<rparr>"

definition no_options :: options where
  "no_options = \<lparr>headers = None, started = None, progress = None, success = None, failed = None\<rparr>"

definition returns :: behaviour where
  "returns = ([], None)"

text \<open>A response with status 200, no headers and the given body; a response with status
  404; and the session after a first transfer that succeeded, which holds the blob URL 0.\<close>

definition served :: "step list \<Rightarrow> network" where
  "served steps =
     \<lparr>pending = [],
      outcome = Response \<lparr>status = 200, content_type = None, content_length = None,
                          body = Some steps\<rparr>\<rparr>"

definition not_found :: network where
  "not_found =
     \<lparr>pending = [],
      outcome = Response \<lparr>status = 404, content_type = None, content_length = None,
                          body = None\<rparr>\<rparr>"

definition after_first :: state where
  "after_first = snd (download ''u'' no_options (served [Chunk [1, 2]]) (new_downloader, p0))"

section \<open>Rounding to binary64\<close>

lemma ilog2_bounds:
  assumes "0 < x"
  shows "2 powi ilog2 x \<le> x" and "x < 2 powi (ilog2 x + 1)"
proof -
  obtain a b where q: "quotient_of x = (a, b)" by (cases "quotient_of x")
  have b: "0 < b" using q by (rule quotient_of_denom_pos)
  have x: "x = of_int a / of_int b" using q by (rule quotient_of_div)
  have a: "0 < a" using assms b x by (simp add: zero_less_divide_iff)
  define la lb where "la = bitlen a" and "lb = bitlen b"
  have la: "2 ^ nat (la - 1) \<le> a" "a < 2 ^ nat la"
    using bitlen_bounds [OF a] by (simp_all add: la_def)
  have lb: "2 ^ nat (lb - 1) \<le> b" "b < 2 ^ nat lb"
    using bitlen_bounds [OF b] by (simp_all add: lb_def)
  have la1: "1 \<le> la" using a by (simp add: la_def bitlen_alt_def)
  have lb1: "1 \<le> lb" using b by (simp add: lb_def bitlen_alt_def)
  have "(of_int (2 ^ nat (la - 1)) :: rat) \<le> of_int a" using la(1) by (simp only: of_int_le_iff)
  then have ra1: "(2::rat) powi (la - 1) \<le> of_int a" using la1 by (simp add: power_int_nonneg_exp)
  have "(of_int a :: rat) < of_int (2 ^ nat la)" using la(2) by (simp only: of_int_less_iff)
  then have ra2: "of_int a < (2::rat) powi la" using la1 by (simp add: power_int_nonneg_exp)
  have "(of_int (2 ^ nat (lb - 1)) :: rat) \<le> of_int b" using lb(1) by (simp only: of_int_le_iff)
  then have rb1: "(2::rat) powi (lb - 1) \<le> of_int b" using lb1 by (simp add: power_int_nonneg_exp)
  have "(of_int b :: rat) < of_int (2 ^ nat lb)" using lb(2) by (simp only: of_int_less_iff)
  then have rb2: "of_int b < (2::rat) powi lb" using lb1 by (simp add: power_int_nonneg_exp)
  have pos: "\<And>k. (0::rat) < 2 powi k" by (simp add: zero_less_power_int)
  have "x < 2 powi la / 2 powi (lb - 1)"
    unfolding x using a ra2 rb1 pos [of "lb - 1"] by (intro frac_less) simp_all
  then have up: "x < 2 powi (la - lb + 1)"
    by (simp add: power_int_diff [symmetric] algebra_simps)
  have "2 powi (la - 1) / 2 powi lb < x"
    unfolding x using b ra1 rb2 pos [of "la - 1"] by (intro frac_less2) simp_all
  then have lo: "2 powi (la - lb - 1) < x"
    by (simp add: power_int_diff [symmetric] algebra_simps)
  have il: "ilog2 x = (if x < 2 powi (la - lb) then la - lb - 1 else la - lb)"
    by (simp add: ilog2_def q la_def lb_def)
  show "2 powi ilog2 x \<le> x" using lo by (simp add: il)
  show "x < 2 powi (ilog2 x + 1)" using up by (simp add: il)
qed

lemma two_powi_pos: "(0::rat) < 2 powi k"
  by (simp add: zero_less_power_int)

lemma div_two_powi_mono: "a \<le> b \<Longrightarrow> a / 2 powi k \<le> b / (2::rat) powi k"
  using two_powi_pos [of k] by (intro divide_right_mono) (simp_all only: less_imp_le)

lemma mult_two_powi_mono: "a \<le> b \<Longrightarrow> a * 2 powi k \<le> b * (2::rat) powi k"
  using two_powi_pos [of k] by (intro mult_right_mono) (simp_all only: less_imp_le)

lemma two_powi_mono: "k \<le> l \<Longrightarrow> (2::rat) powi k \<le> 2 powi l"
  by (rule power_int_increasing) simp_all

lemma two_powi_less_cancel: "(2::rat) powi k < 2 powi l \<Longrightarrow> k < l"
  using two_powi_mono [of l k] by (cases "k < l") simp_all

lemma ilog2_unique:
  assumes "0 < x" "2 powi k \<le> x" "x < 2 powi (k + 1)"
  shows "ilog2 x = k"
proof -
  have "2 powi ilog2 x < (2::rat) powi (k + 1)"
    using ilog2_bounds(1) [OF assms(1)] assms(3) by simp
  then have 1: "ilog2 x < k + 1" by (rule two_powi_less_cancel)
  have "2 powi k < (2::rat) powi (ilog2 x + 1)"
    using ilog2_bounds(2) [OF assms(1)] assms(2) by simp
  then have "k < ilog2 x + 1" by (rule two_powi_less_cancel)
  with 1 show ?thesis by simp
qed

lemma ilog2_mono:
  assumes "0 < x" "x \<le> y"
  shows "ilog2 x \<le> ilog2 y"
proof -
  have y: "0 < y" using assms by simp
  have "2 powi ilog2 x < (2::rat) powi (ilog2 y + 1)"
    using ilog2_bounds(1) [OF assms(1)] ilog2_bounds(2) [OF y] assms(2) by simp
  then have "ilog2 x < ilog2 y + 1" by (rule two_powi_less_cancel)
  then show ?thesis by simp
qed

lemma quantum_mono: "0 < x \<Longrightarrow> x \<le> y \<Longrightarrow> quantum x \<le> quantum y"
  using ilog2_mono [of x y] by (simp add: quantum_def)

lemma round_half_even_floor:
  "\<lfloor>r\<rfloor> \<le> round_half_even r" "round_half_even r \<le> \<lfloor>r\<rfloor> + 1"
  by (simp_all add: round_half_even_def Let_def)

lemma round_half_even_of_int: "round_half_even (of_int n) = n"
  by (simp add: round_half_even_def)

lemma round_half_even_mono:
  assumes "a \<le> b"
  shows "round_half_even a \<le> round_half_even b"
proof (cases "\<lfloor>a\<rfloor> = \<lfloor>b\<rfloor>")
  case True
  then show ?thesis using assms by (simp add: round_half_even_def Let_def)
next
  case False
  then have "\<lfloor>a\<rfloor> + 1 \<le> \<lfloor>b\<rfloor>" using floor_mono [OF assms] by simp
  then show ?thesis
    using round_half_even_floor(2) [of a] round_half_even_floor(1) [of b] by simp
qed

lemma round_half_even_ge: "of_int n \<le> r \<Longrightarrow> n \<le> round_half_even r"
  using round_half_even_mono [of "of_int n" r] by (simp add: round_half_even_of_int)

lemma round_half_even_le: "r \<le> of_int n \<Longrightarrow> round_half_even r \<le> n"
  using round_half_even_mono [of r "of_int n"] by (simp add: round_half_even_of_int)

lemma round_pos_nonneg: "0 \<le> x \<Longrightarrow> 0 \<le> round_pos x"
proof -
  assume x: "0 \<le> x"
  have "0 \<le> x / 2 powi quantum x" using x two_powi_pos [of "quantum x"] by simp
  then have "0 \<le> round_half_even (x / 2 powi quantum x)"
    using round_half_even_ge [of 0] by simp
  then show ?thesis using two_powi_pos [of "quantum x"] by (simp add: round_pos_def)
qed

lemma round_pos_upper:
  assumes "0 < x"
  shows "round_pos x \<le> 2 powi (quantum x + 53)"
proof -
  let ?q = "quantum x"
  have "ilog2 x + 1 \<le> ?q + 53" by (simp add: quantum_def)
  then have "x < 2 powi (?q + 53)"
    using ilog2_bounds(2) [OF assms] two_powi_mono [of "ilog2 x + 1" "?q + 53"] by simp
  then have "x / 2 powi ?q \<le> 2 powi (?q + 53) / 2 powi ?q"
    by (intro div_two_powi_mono) simp
  also have "\<dots> = of_int (2 ^ 53)" by (simp add: power_int_add)
  finally have "round_half_even (x / 2 powi ?q) \<le> 2 ^ 53" by (rule round_half_even_le)
  then have "(of_int (round_half_even (x / 2 powi ?q)) :: rat) \<le> of_int (2 ^ 53)"
    by (simp only: of_int_le_iff)
  then have "of_int (round_half_even (x / 2 powi ?q)) * 2 powi ?q \<le> (of_int (2 ^ 53) :: rat) * 2 powi ?q"
    by (rule mult_two_powi_mono)
  then show ?thesis using assms by (simp add: round_pos_def power_int_add)
qed

lemma round_pos_lower:
  assumes "0 < x" "- 1074 < quantum x"
  shows "2 powi (quantum x + 52) \<le> round_pos x"
proof -
  let ?q = "quantum x"
  have "?q + 52 = ilog2 x" using assms(2) by (simp add: quantum_def)
  then have "2 powi (?q + 52) \<le> x" using ilog2_bounds(1) [OF assms(1)] by simp
  then have "2 powi (?q + 52) / 2 powi ?q \<le> x / 2 powi ?q"
    by (rule div_two_powi_mono)
  moreover have "2 powi (?q + 52) / 2 powi ?q = (of_int (2 ^ 52) :: rat)" by (simp add: power_int_add)
  ultimately have "2 ^ 52 \<le> round_half_even (x / 2 powi ?q)"
    using round_half_even_ge [of "2 ^ 52" "x / 2 powi ?q"] by simp
  then have "(of_int (2 ^ 52) :: rat) \<le> of_int (round_half_even (x / 2 powi ?q))"
    by (simp only: of_int_le_iff)
  then have "(of_int (2 ^ 52) :: rat) * 2 powi ?q \<le> of_int (round_half_even (x / 2 powi ?q)) * 2 powi ?q"
    by (rule mult_two_powi_mono)
  then show ?thesis using assms by (simp add: round_pos_def power_int_add)
qed

lemma round_pos_mono:
  assumes "0 \<le> x" "x \<le> y"
  shows "round_pos x \<le> round_pos y"
proof (cases "x = 0")
  case True
  then show ?thesis using round_pos_nonneg [of y] assms by (simp add: round_pos_def)
next
  case False
  then have x: "0 < x" and y: "0 < y" using assms by simp_all
  have q: "quantum x \<le> quantum y" using x assms(2) by (rule quantum_mono)
  show ?thesis
  proof (cases "quantum x = quantum y")
    case True
    have "x / 2 powi quantum y \<le> y / 2 powi quantum y"
      using assms(2) by (rule div_two_powi_mono)
    then have "round_half_even (x / 2 powi quantum y) \<le> round_half_even (y / 2 powi quantum y)"
      by (rule round_half_even_mono)
    then have "(of_int (round_half_even (x / 2 powi quantum y)) :: rat)
        \<le> of_int (round_half_even (y / 2 powi quantum y))"
      by (simp only: of_int_le_iff)
    then have "of_int (round_half_even (x / 2 powi quantum y)) * 2 powi quantum y
        \<le> (of_int (round_half_even (y / 2 powi quantum y)) :: rat) * 2 powi quantum y"
      by (rule mult_two_powi_mono)
    then show ?thesis using x y True by (simp add: round_pos_def)
  next
    case False
    with q have lt: "quantum x + 1 \<le> quantum y" by simp
    have "- 1074 \<le> quantum x" by (simp add: quantum_def)
    with lt have "- 1074 < quantum y" by simp
    then have "2 powi (quantum y + 52) \<le> round_pos y" using round_pos_lower [OF y] by simp
    moreover have "round_pos x \<le> 2 powi (quantum x + 53)" using x by (rule round_pos_upper)
    moreover have "(2::rat) powi (quantum x + 53) \<le> 2 powi (quantum y + 52)"
      using lt by (intro two_powi_mono) simp
    ultimately show ?thesis by simp
  qed
qed

lemma round64_mono:
  assumes "x \<le> y"
  shows "round64 x \<le> round64 y"
proof -
  consider "0 \<le> x" | "x < 0" "0 \<le> y" | "x < 0" "y < 0" by linarith
  then show ?thesis
  proof cases
    case 1
    then show ?thesis using assms round_pos_mono [of x y] by (simp add: round64_def)
  next
    case 2
    then show ?thesis using round_pos_nonneg [of "- x"] round_pos_nonneg [of y]
      by (simp add: round64_def)
  next
    case 3
    then show ?thesis using assms round_pos_mono [of "- y" "- x"] by (simp add: round64_def)
  qed
qed

lemma round_pos_of_nat:
  assumes "n \<le> 2 ^ 53"
  shows "round_pos (of_nat n) = of_nat n"
proof (cases "n = 0")
  case True
  then show ?thesis by (simp add: round_pos_def)
next
  case False
  let ?x = "of_nat n :: rat"
  let ?q = "quantum ?x"
  have x: "0 < ?x" using False by simp
  have le: "?x \<le> 2 ^ 53" using assms by (metis of_nat_le_iff of_nat_numeral of_nat_power)
  have int: "\<exists>m. ?x / 2 powi ?q = of_int m"
  proof (cases "?q \<le> 0")
    case True
    then have "?x / 2 powi ?q = ?x * 2 ^ nat (- ?q)"
      by (simp add: power_int_def field_simps)
    also have "\<dots> = of_int (int n * 2 ^ nat (- ?q))" by simp
    finally show ?thesis by blast
  next
    case False
    then have "1 \<le> ilog2 ?x - 52" by (simp add: quantum_def)
    then have "(2::rat) powi 53 \<le> 2 powi ilog2 ?x" by (intro two_powi_mono) simp
    then have "2 ^ 53 \<le> ?x" using ilog2_bounds(1) [OF x] by simp
    with le have eq: "?x = 2 ^ 53" by simp
    then have "ilog2 ?x = 53" by (intro ilog2_unique) simp_all
    then have "?q = 1" by (simp add: quantum_def)
    then have "?x / 2 powi ?q = of_int (2 ^ 52)" using eq by simp
    then show ?thesis by blast
  qed
  then obtain m where m: "?x / 2 powi ?q = of_int m" by blast
  then have "of_int (round_half_even (?x / 2 powi ?q)) * 2 powi ?q = ?x / 2 powi ?q * 2 powi ?q"
    by (simp add: round_half_even_of_int)
  also have "\<dots> = ?x" using two_powi_pos [of ?q] by simp
  finally show ?thesis using False by (simp add: round_pos_def)
qed

lemma significand_bounds:
  assumes "0 < x"
  shows "0 \<le> round_half_even (x / 2 powi quantum x)"
    and "round_half_even (x / 2 powi quantum x) \<le> 2 ^ 53"
proof -
  let ?q = "quantum x"
  have "0 \<le> x / 2 powi ?q" using assms two_powi_pos [of ?q] by simp
  then show "0 \<le> round_half_even (x / 2 powi ?q)" using round_half_even_ge [of 0] by simp
  have "ilog2 x + 1 \<le> ?q + 53" by (simp add: quantum_def)
  then have "x < 2 powi (?q + 53)"
    using ilog2_bounds(2) [OF assms] two_powi_mono [of "ilog2 x + 1" "?q + 53"] by simp
  then have "x / 2 powi ?q \<le> 2 powi (?q + 53) / 2 powi ?q"
    by (intro div_two_powi_mono) simp
  also have "\<dots> = of_int (2 ^ 53)" by (simp add: power_int_add)
  finally show "round_half_even (x / 2 powi ?q) \<le> 2 ^ 53" by (rule round_half_even_le)
qed

lemma round_pos_fix:
  assumes "0 \<le> m" "m \<le> 2 ^ 53" "- 1074 \<le> q"
  shows "round_pos (of_int m * 2 powi q) = of_int m * 2 powi q"
proof (cases "m = 0")
  case True
  then show ?thesis by (simp add: round_pos_def)
next
  case False
  define y :: rat where "y = of_int m * 2 powi q"
  let ?q = "quantum y"
  have m: "0 < m" using False assms(1) by simp
  have y: "0 < y" using m two_powi_pos [of q] by (simp add: y_def)
  have int: "\<exists>k. y / 2 powi ?q = of_int k"
  proof (cases "?q \<le> q")
    case True
    have "y / 2 powi ?q = of_int m * 2 powi (q - ?q)"
      by (simp add: y_def power_int_diff)
    also have "\<dots> = of_int (m * 2 ^ nat (q - ?q))"
      using True by (simp add: power_int_nonneg_exp)
    finally show ?thesis by blast
  next
    case False
    then have "- 1074 < ?q" using assms(3) by simp
    then have il: "?q = ilog2 y - 52" by (simp add: quantum_def)
    with False have "q + 53 \<le> ilog2 y" by simp
    then have "(2::rat) powi (q + 53) \<le> 2 powi ilog2 y" by (rule two_powi_mono)
    then have "(2::rat) powi (q + 53) \<le> y" using ilog2_bounds(1) [OF y] by simp
    then have "(of_int (2 ^ 53) :: rat) * 2 powi q \<le> of_int m * 2 powi q"
      by (simp add: y_def power_int_add mult.commute)
    then have "(of_int (2 ^ 53) :: rat) \<le> of_int m"
      using two_powi_pos [of q] by (simp only: mult_le_cancel_right_pos)
    then have "2 ^ 53 \<le> m" by (simp only: of_int_le_iff)
    with assms(2) have meq: "m = 2 ^ 53" by simp
    then have yeq: "y = 2 powi (q + 53)" by (simp add: y_def power_int_add mult.commute)
    have "ilog2 y = q + 53"
      using y by (rule ilog2_unique) (simp_all add: yeq two_powi_mono power_int_add)
    then have "?q = q + 1" using il by simp
    then have "y / 2 powi ?q = of_int (2 ^ 52)"
      by (simp add: yeq power_int_add)
    then show ?thesis by blast
  qed
  then obtain k where k: "y / 2 powi ?q = of_int k" by blast
  then have "of_int (round_half_even (y / 2 powi ?q)) * 2 powi ?q = y / 2 powi ?q * 2 powi ?q"
    by (simp add: round_half_even_of_int)
  also have "\<dots> = y" using two_powi_pos [of ?q] by simp
  finally have "round_pos y = y" using y by (simp add: round_pos_def)
  then show ?thesis by (simp add: y_def)
qed

lemma round_pos_idem: "0 \<le> x \<Longrightarrow> round_pos (round_pos x) = round_pos x"
proof (cases "x = 0")
  case True
  then show ?thesis by (simp add: round_pos_def)
next
  case False
  assume "0 \<le> x"
  with False have x: "0 < x" by simp
  have q: "- 1074 \<le> quantum x" by (simp add: quantum_def)
  show ?thesis
    using round_pos_fix [OF significand_bounds [OF x] q] False by (simp add: round_pos_def)
qed

lemma round64_idem: "round64 (round64 x) = round64 x"
proof (cases "x < 0")
  case False
  then show ?thesis
    using round_pos_nonneg [of x] round_pos_idem [of x] by (simp add: round64_def)
next
  case True
  then have "0 \<le> round_pos (- x)" using round_pos_nonneg [of "- x"] by simp
  then show ?thesis
    using True round_pos_idem [of "- x"] by (auto simp add: round64_def round_pos_def)
qed

lemma round64_of_nat: "n \<le> 2 ^ 53 \<Longrightarrow> round64 (of_nat n) = of_nat n"
  by (simp add: round64_def round_pos_of_nat)

lemma to_double_of_nat: "n \<le> 2 ^ 53 \<Longrightarrow> to_double (of_nat n) = Fin (of_nat n)"
proof -
  assume n: "n \<le> 2 ^ 53"
  have "(of_nat n :: rat) \<le> of_nat (2 ^ 53)" using n by (simp only: of_nat_le_iff)
  then have "(of_nat n :: rat) < 2 ^ 1024" by simp
  moreover have "- (2 ^ 1024) < (of_nat n :: rat)"
    by (rule less_le_trans [of _ 0]) simp_all
  ultimately show ?thesis using n by (simp add: to_double_def round64_of_nat)
qed

lemma to_double_simps [simp]:
  "to_double 0 = Fin 0" "to_double 1 = Fin 1" "to_double 100 = Fin 100"
  using to_double_of_nat [of 0] to_double_of_nat [of 1] to_double_of_nat [of 100] by simp_all

lemma to_double_fix: "to_double x = Fin y \<Longrightarrow> to_double y = Fin y"
  by (auto simp add: to_double_def Let_def round64_idem split: if_splits)

lemma is_double_to_double: "is_double (to_double x)"
  by (cases "to_double x") (auto simp add: is_double_def dest: to_double_fix)

lemma to_double_mono: "x \<le> y \<Longrightarrow> js_le (to_double x) (to_double y)"
  using round64_mono [of x y] by (auto simp add: to_double_def Let_def)

lemma js_le_trans: "js_le a b \<Longrightarrow> js_le b c \<Longrightarrow> js_le a c"
  by (cases a; cases b; cases c) simp_all

lemma to_double_not_NaN [simp]: "to_double x \<noteq> NaN"
  by (simp add: to_double_def Let_def)

lemma js_le_PosInf [simp]: "js_le a PosInf = (a \<noteq> NaN)"
  by (cases a) simp_all

lemma js_le_NegInf [simp]: "js_le NegInf a = (a \<noteq> NaN)"
  by (cases a) simp_all

lemma js_le_to_double_left: "to_double c = Fin c \<Longrightarrow> c \<le> x \<Longrightarrow> js_le (Fin c) (to_double x)"
  using to_double_mono [of c x] by simp

lemma js_le_to_double_right: "to_double c = Fin c \<Longrightarrow> x \<le> c \<Longrightarrow> js_le (to_double x) (Fin c)"
  using to_double_mono [of x c] by simp

lemma to_double_2_53: "to_double (2 ^ 53) = Fin (2 ^ 53)"
  using to_double_of_nat [of "2 ^ 53"] by simp

lemma big_to_double: "2 ^ 53 \<le> x \<Longrightarrow> js_le (Fin (2 ^ 53)) (to_double x)"
  using to_double_2_53 by (rule js_le_to_double_left)

lemma big_to_double_of_nat: "2 ^ 53 \<le> n \<Longrightarrow> js_le (Fin (2 ^ 53)) (to_double (of_nat n))"
proof -
  assume "2 ^ 53 \<le> n"
  then have "(of_nat (2 ^ 53) :: rat) \<le> of_nat n" by (simp only: of_nat_le_iff)
  then have "(2 ^ 53 :: rat) \<le> of_nat n" by simp
  then show ?thesis by (rule big_to_double)
qed

lemma js_add_ge_left:
  assumes "to_double c = Fin c" "js_le (Fin c) a" "js_le (Fin 0) b"
  shows "js_le (Fin c) (js_add a b)"
  using assms by (cases a; cases b) (simp_all add: js_le_to_double_left)

lemma js_add_ge_right:
  assumes "to_double c = Fin c" "js_le (Fin 0) a" "js_le (Fin c) b"
  shows "js_le (Fin c) (js_add a b)"
  using assms by (cases a; cases b) (simp_all add: js_le_to_double_left)

lemma is_double_js_add: "is_double (js_add a b)"
  using is_double_to_double by (cases a; cases b) (simp_all add: is_double_def)

lemma js_add_increasing:
  assumes "is_double a" "js_le (Fin 0) a" "js_le (Fin 0) b"
  shows "js_le a (js_add a b)"
  using assms by (cases a; cases b) (simp_all add: is_double_def js_le_to_double_left)

lemma array_length_nonneg: "js_le (Fin 0) (array_length v)"
  by (simp add: array_length_def js_le_to_double_left)

lemma array_length_exact: "length v \<le> 2 ^ 53 \<Longrightarrow> array_length v = Fin (of_nat (length v))"
  by (simp add: array_length_def to_double_of_nat)

lemma array_length_big: "2 ^ 53 < length v \<Longrightarrow> js_le (Fin (2 ^ 53)) (array_length v)"
  unfolding array_length_def by (rule big_to_double_of_nat) simp

lemma tracks_add:
  assumes "tracks n r"
  shows "tracks (n + length v) (js_add r (array_length v))"
proof (cases "n + length v \<le> 2 ^ 53")
  case True
  then have "n \<le> 2 ^ 53" "length v \<le> 2 ^ 53" by simp_all
  then show ?thesis
    using assms True to_double_of_nat [of "n + length v"]
    by (simp add: tracks_def array_length_exact)
next
  case False
  have "js_le (Fin (2 ^ 53)) (js_add r (array_length v))"
  proof (cases "n \<le> 2 ^ 53")
    case n: True
    then have r: "r = Fin (of_nat n)" using assms by (simp add: tracks_def)
    show ?thesis
    proof (cases "length v \<le> 2 ^ 53")
      case True
      have "js_le (Fin (2 ^ 53)) (to_double (of_nat (n + length v)))"
        using False by (intro big_to_double_of_nat) simp
      then show ?thesis
        using True by (simp add: r array_length_exact)
    next
      case False
      then show ?thesis
        using array_length_big [of v] to_double_2_53
        by (intro js_add_ge_right) (simp_all add: r)
    qed
  next
    case False
    then have "js_le (Fin (2 ^ 53)) r" using assms by (simp add: tracks_def)
    then show ?thesis
      using to_double_2_53 by (intro js_add_ge_left) (simp_all add: array_length_nonneg)
  qed
  then show ?thesis using False by (simp add: tracks_def)
qed

lemma to_integer_of_nat [simp]: "to_integer (of_nat n) = int n"
  by (simp add: to_integer_def)

lemma combine_exact:
  assumes "k + length (concat vs) \<le> length a" "length a \<le> 2 ^ 53"
  shows "combine vs a (Fin (of_nat k)) = Inr (take k a @ concat vs @ drop (k + length (concat vs)) a)"
  using assms
proof (induction vs arbitrary: a k)
  case Nil
  then show ?case by simp
next
  case (Cons v vs)
  let ?a = "take k a @ v @ drop (k + length v) a"
  have fit: "length v + k \<le> length a" using Cons.prems(1) by simp
  then have set: "typed_array_set a v (Fin (of_nat k)) = Inr ?a"
    by (simp add: typed_array_set_def)
  have "k + length v \<le> 2 ^ 53" using fit Cons.prems(2) by simp
  then have pos: "js_add (Fin (of_nat k)) (array_length v) = Fin (of_nat (k + length v))"
    using to_double_of_nat [of "k + length v"] by (simp add: array_length_exact)
  have len: "length ?a = length a" using fit by simp
  have "combine vs ?a (Fin (of_nat (k + length v)))
      = Inr (take (k + length v) ?a @ concat vs @ drop (k + length v + length (concat vs)) ?a)"
    using Cons.prems by (intro Cons.IH) (simp_all add: len)
  moreover have "take (k + length v) ?a = take k a @ v" using fit by simp
  moreover have "drop (k + length v + length (concat vs)) ?a
      = drop (k + length v + length (concat vs)) a" using fit by (simp add: ac_simps)
  ultimately show ?case by (simp add: set pos ac_simps)
qed

lemma new_Uint8Array_tracks:
  assumes "tracks n r" "new_Uint8Array limit r = Inr z"
  shows "n < 2 ^ 53" and "r = Fin (of_nat n)" and "z = replicate n 0"
proof -
  have le: "n \<le> 2 ^ 53"
  proof (rule ccontr)
    assume "\<not> n \<le> 2 ^ 53"
    then have big: "js_le (Fin (2 ^ 53)) r" using assms(1) by (simp add: tracks_def)
    then show False
    proof (cases r)
      case (Fin x)
      then have x: "2 ^ 53 \<le> x" using big by simp
      then have "(of_int (2 ^ 53) :: rat) \<le> x" by simp
      then have c: "2 ^ 53 \<le> \<lfloor>x\<rfloor>" by (simp only: le_floor_iff)
      have a: "int (min limit (2 ^ 53 - 1)) \<le> int (2 ^ 53 - 1)"
        by (simp only: of_nat_le_iff min.cobounded2)
      have b: "int (2 ^ 53 - 1) < 2 ^ 53" by simp
      have "int (min limit (2 ^ 53 - 1)) < \<lfloor>x\<rfloor>"
        using le_less_trans [OF a b] c by (rule less_le_trans)
      moreover have "0 \<le> x" using x by (rule order_trans [rotated]) simp
      ultimately show False using assms(2) Fin
        by (simp add: new_Uint8Array_def to_integer_def Let_def)
    qed (use assms(2) in \<open>simp_all add: new_Uint8Array_def\<close>)
  qed
  then show r: "r = Fin (of_nat n)" using assms(1) by (simp add: tracks_def)
  show "n < 2 ^ 53" and "z = replicate n 0"
    using assms(2) le by (auto simp add: r new_Uint8Array_def Let_def split: if_splits)
qed

section \<open>Properties of stop and cleanup\<close>

lemma stop_fields:
  "controller (fst (stop (d, p))) = None"
  "blobUrl (fst (stop (d, p))) = None"
  "isPaused (fst (stop (d, p))) = isPaused d"
  by (simp_all add: stop_def split: option.splits)

lemma stop_idle: "controller d = None \<Longrightarrow> blobUrl d = None \<Longrightarrow> stop (d, p) = (d, p)"
  by (simp add: stop_def)

lemma stop_stop: "stop (stop dp) = stop dp"
proof (cases dp)
  case (Pair d p)
  obtain d' p' where s: "stop (d, p) = (d', p')" by (cases "stop (d, p)")
  have "controller d' = None" "blobUrl d' = None"
    using stop_fields(1,2) [of d p] s by simp_all
  then have "stop (d', p') = (d', p')" by (rule stop_idle)
  with Pair s show ?thesis by simp
qed

lemma stop_trace:
  "trace (snd (stop (d, p))) =
     trace p @ (case controller d of Some c \<Rightarrow> [Abort c] | None \<Rightarrow> [])
             @ (case blobUrl d of Some u \<Rightarrow> [Revoke u] | None \<Rightarrow> [])"
  by (simp add: stop_def abort_def revokeObjectURL_def emit_def split: option.splits)

lemma stop_aborts:
  "controller d = Some c \<Longrightarrow> c < length (controllers p) \<Longrightarrow> aborted c (snd (stop (d, p)))"
  by (simp add: stop_def abort_def revokeObjectURL_def emit_def aborted_def split: option.splits)

lemma stop_revokes:
  "blobUrl d = Some u \<Longrightarrow> resolve u (snd (stop (d, p))) = None"
  by (simp add: stop_def abort_def revokeObjectURL_def emit_def resolve_def split: option.splits)

lemma cleanup_eq_stop: "cleanup dp = stop dp"
proof (cases dp)
  case (Pair d p)
  obtain d' p' where s: "stop (d, p) = (d', p')" by (cases "stop (d, p)")
  have "blobUrl d' = None" using stop_fields(2) [of d p] s by simp
  with Pair s show ?thesis by (simp add: cleanup_def)
qed

text \<open>
  C5. \<^verbatim>\<open>stop()\<close> aborts the session's controller if there is one and then clears the field,
  and revokes the session's blob URL if there is one and clears that field: the trace gains
  exactly these calls, in this order, and no callback. Afterwards both fields are null. On a
  session with neither \<^verbatim>\<open>stop()\<close> changes nothing at all, and a second \<^verbatim>\<open>stop()\<close> right after
  a first changes nothing.
\<close>

theorem stop_cancels_releases_idempotent:
  "controller (fst (stop (d, p))) = None \<and>
   blobUrl (fst (stop (d, p))) = None \<and>
   trace (snd (stop (d, p))) =
     trace p @ (case controller d of Some c \<Rightarrow> [Abort c] | None \<Rightarrow> [])
             @ (case blobUrl d of Some u \<Rightarrow> [Revoke u] | None \<Rightarrow> []) \<and>
   (\<forall>c. controller d = Some c \<and> c < length (controllers p) \<longrightarrow> aborted c (snd (stop (d, p)))) \<and>
   (\<forall>u. blobUrl d = Some u \<longrightarrow> resolve u (snd (stop (d, p))) = None) \<and>
   (controller d = None \<and> blobUrl d = None \<longrightarrow> stop (d, p) = (d, p)) \<and>
   stop (stop (d, p)) = stop (d, p)"
  using stop_fields(1,2) [of d p] stop_trace [of d p] stop_idle [of d p] stop_stop [of "(d, p)"]
    stop_aborts [of d _ p] stop_revokes [of d _ p]
  by blast

theorem stop_cancels_releases_idempotent_witness:
  "(let d = \<lparr>controller = Some 0, isPaused = False, blobUrl = Some 0\<rparr>;
        p = \<lparr>controllers = [False], objects = [Some \<lparr>bytes = [1, 2], btype = None\<rparr>], max_length = 0, trace = []\<rparr>
    in controller d = Some 0 \<and> 0 < length (controllers p) \<and> blobUrl d = Some 0 \<and>
       aborted 0 (snd (stop (d, p))) \<and> resolve 0 (snd (stop (d, p))) = None \<and>
       trace (snd (stop (d, p))) = [Abort 0, Revoke 0]) \<and>
   stop (new_downloader, \<lparr>controllers = [], objects = [], max_length = 0, trace = []\<rparr>) =
     (new_downloader, \<lparr>controllers = [], objects = [], max_length = 0, trace = []\<rparr>)"
  using stop_cancels_releases_idempotent
    [of "\<lparr>controller = Some 0, isPaused = False, blobUrl = Some 0\<rparr>"
        "\<lparr>controllers = [False], objects = [Some \<lparr>bytes = [1, 2], btype = None\<rparr>], max_length = 0, trace = []\<rparr>"]
    stop_cancels_releases_idempotent
    [of new_downloader "\<lparr>controllers = [], objects = [], max_length = 0, trace = []\<rparr>"]
  by (simp add: new_downloader_def)

text \<open>
  C6. \<^verbatim>\<open>cleanup()\<close> leaves the session and the platform exactly as \<^verbatim>\<open>stop()\<close> does: the
  guard of its second release is false after \<^verbatim>\<open>this.stop()\<close>, so that branch never runs.
  \<^verbatim>\<open>cleanup()\<close> is idempotent.
\<close>

theorem cleanup_is_stop:
  "cleanup dp = stop dp \<and> \<not> cleanup_guard dp \<and> cleanup (cleanup dp) = cleanup dp"
proof -
  have "\<not> cleanup_guard dp"
    using stop_fields(2) [of "fst dp" "snd dp"] by (simp add: cleanup_guard_def)
  then show ?thesis by (simp add: cleanup_eq_stop stop_stop)
qed

section \<open>The percentage and the received length\<close>

lemma floor_rat_divide_numeral [simp]:
  "\<lfloor>(numeral a :: rat) / numeral b\<rfloor> = numeral a div numeral b"
  using floor_divide_of_int_eq [of "numeral a" "numeral b", where ?'a = rat] by simp

lemma floor_rat_one_divide_numeral [simp]:
  "\<lfloor>(1 :: rat) / numeral b\<rfloor> = 1 div numeral b"
  using floor_divide_of_int_eq [of 1 "numeral b", where ?'a = rat] by simp

lemma js_div_mono: "0 < l \<Longrightarrow> js_le a b \<Longrightarrow> js_le (js_div a (Fin l)) (js_div b (Fin l))"
  by (cases a; cases b) (simp_all add: to_double_mono divide_right_mono)

lemma js_mul_100_mono: "js_le a b \<Longrightarrow> js_le (js_mul a (Fin 100)) (js_mul b (Fin 100))"
  by (cases a; cases b) (simp_all add: to_double_mono)

lemma math_round_mono: "js_le a b \<Longrightarrow> js_le (math_round a) (math_round b)"
  by (cases a; cases b) (simp_all add: floor_mono)

lemma percent_of_mono:
  "0 < l \<Longrightarrow> js_le a b \<Longrightarrow> js_le (percent_of a (Fin l)) (percent_of b (Fin l))"
  unfolding percent_of_def by (intro math_round_mono js_mul_100_mono js_div_mono)

lemma percent_of_full: "l \<noteq> 0 \<Longrightarrow> percent_of (Fin l) (Fin l) = Fin 100"
  by (simp add: percent_of_def)

lemma percent_of_zero: "l \<noteq> 0 \<Longrightarrow> percent_of (Fin 0) (Fin l) = Fin 0"
  by (simp add: percent_of_def)

lemma percent_of_range:
  assumes "0 < l" "0 \<le> x" "x \<le> l"
  shows "\<exists>k. percent_of (Fin x) (Fin l) = Fin (of_int k) \<and> 0 \<le> k \<and> k \<le> 100"
proof -
  let ?u = "js_mul (js_div (Fin x) (Fin l)) (Fin 100)"
  have lo: "js_le (Fin 0) (percent_of (Fin x) (Fin l))"
    using percent_of_mono [of l "Fin 0" "Fin x"] assms by (simp add: percent_of_zero)
  have hi: "js_le (percent_of (Fin x) (Fin l)) (Fin 100)"
    using percent_of_mono [of l "Fin x" "Fin l"] assms by (simp add: percent_of_full)
  show ?thesis
  proof (cases ?u)
    case (Fin w)
    then have p: "percent_of (Fin x) (Fin l) = Fin (of_int \<lfloor>w + 1 / 2\<rfloor>)"
      by (simp add: percent_of_def)
    have "(0::rat) \<le> of_int \<lfloor>w + 1 / 2\<rfloor>" using lo by (simp add: p)
    moreover have "(of_int \<lfloor>w + 1 / 2\<rfloor> :: rat) \<le> 100" using hi by (simp add: p)
    ultimately show ?thesis using p by (intro exI [of _ "\<lfloor>w + 1 / 2\<rfloor>"]) simp
  qed (use lo hi in \<open>simp_all add: percent_of_def\<close>)
qed

lemma cumulative_ge:
  "is_double r \<Longrightarrow> js_le (Fin 0) r \<Longrightarrow> x \<in> set (cumulative r vs) \<Longrightarrow> js_le r x"
proof (induction vs arbitrary: r)
  case Nil
  then show ?case by simp
next
  case (Cons v vs)
  let ?r = "js_add r (array_length v)"
  have step: "js_le r ?r" using Cons.prems(1,2) array_length_nonneg by (rule js_add_increasing)
  show ?case
  proof (cases "x = ?r")
    case True
    then show ?thesis using step by simp
  next
    case False
    then have "x \<in> set (cumulative ?r vs)" using Cons.prems(3) by simp
    moreover have "js_le (Fin 0) ?r" using Cons.prems(2) step by (rule js_le_trans)
    ultimately have "js_le ?r x" using is_double_js_add by (intro Cons.IH)
    with step show ?thesis by (rule js_le_trans)
  qed
qed

lemma cumulative_sorted:
  "is_double r \<Longrightarrow> js_le (Fin 0) r \<Longrightarrow> sorted_wrt js_le (cumulative r vs)"
proof (induction vs arbitrary: r)
  case Nil
  then show ?case by simp
next
  case (Cons v vs)
  let ?r = "js_add r (array_length v)"
  have step: "js_le r ?r" using Cons.prems(1,2) array_length_nonneg by (rule js_add_increasing)
  have nn: "js_le (Fin 0) ?r" using Cons.prems(2) step by (rule js_le_trans)
  have "\<forall>x\<in>set (cumulative ?r vs). js_le ?r x"
    using cumulative_ge [OF is_double_js_add nn] by blast
  moreover have "sorted_wrt js_le (cumulative ?r vs)"
    using is_double_js_add nn by (rule Cons.IH)
  ultimately show ?case by simp
qed

lemma length_cumulative [simp]: "length (cumulative r vs) = length vs"
  by (induction vs arbitrary: r) simp_all

lemma cumulative_append:
  "cumulative r (vs @ ws) = cumulative r vs @ cumulative (last (r # cumulative r vs)) ws"
  by (induction vs arbitrary: r) simp_all

lemma tracks_cumulative:
  "tracks n r \<Longrightarrow> tracks (n + length (concat vs)) (last (r # cumulative r vs))"
proof (induction vs arbitrary: n r)
  case Nil
  then show ?case by simp
next
  case (Cons v vs)
  have "tracks (n + length v + length (concat vs))
          (last (js_add r (array_length v) # cumulative (js_add r (array_length v)) vs))"
    using Cons.prems by (intro Cons.IH tracks_add)
  then show ?case by (simp add: add.assoc)
qed

section \<open>The states of a transfer\<close>

lemma fold_run_call: "fold run_call cs dp = (if cs = [] then dp else stop dp)"
proof (induction cs arbitrary: dp)
  case Nil
  then show ?case by simp
next
  case (Cons c cs)
  have "run_call c dp = stop dp" by (cases c) (simp_all add: run_call_def cleanup_eq_stop)
  then show ?case using Cons.IH [of "stop dp"] by (simp add: stop_stop)
qed

lemma run_call_stop: "run_call c dp = stop dp"
  by (cases c) (simp_all add: run_call_def cleanup_eq_stop)

lemma invoke_eq: "invoke b dp = (snd b, if fst b = [] then dp else stop dp)"
  by (simp add: invoke_def fold_run_call)

lemma log_Nil [simp]: "log [] dp = dp"
  by (simp add: log_def)

lemma log_log [simp]: "log es' (log es dp) = log (es @ es') dp"
  by (simp add: log_def)

lemma emit_log: "(fst dp, emit e (snd dp)) = log [e] dp"
  by (simp add: log_def emit_def)

lemma emit_log_pair: "(d, emit e p) = log [e] (d, p)"
  by (simp add: log_def emit_def)

lemma fst_log [simp]: "fst (log es dp) = fst dp"
  by (simp add: log_def)

lemma snd_log [simp]:
  "controllers (snd (log es dp)) = controllers (snd dp)"
  "objects (snd (log es dp)) = objects (snd dp)"
  "max_length (snd (log es dp)) = max_length (snd dp)"
  "trace (snd (log es dp)) = trace (snd dp) @ es"
  by (simp_all add: log_def)

lemma aborted_log [simp]: "aborted sig (snd (log es dp)) = aborted sig (snd dp)"
  by (simp add: aborted_def)

lemma active_log [simp]: "active sig (log es dp) = active sig dp"
  by (simp add: active_def)

lemma stopped_log [simp]: "stopped sig (log es dp) = stopped sig dp"
  by (simp add: stopped_def)

lemma active_stop: "active sig dp \<Longrightarrow> stopped sig (stop dp)"
  using stop_fields(1,2) [of "fst dp" "snd dp"] stop_aborts [of "fst dp" sig "snd dp"]
  by (simp add: active_def stopped_def)

lemma stopped_stop: "stopped sig dp \<Longrightarrow> stop dp = dp"
  using stop_idle [of "fst dp" "snd dp"] by (simp add: stopped_def)

lemma rest_simps [simp]: "rest None = []" "rest (Some es) = es"
  by (simp_all add: rest_def)

lemma went_None [simp]: "went es None dp = log es dp"
  by (simp add: went_def)

lemma went_log:
  "log es' (went es t dp)
     = (case t of None \<Rightarrow> went (es @ es') None dp | Some es2 \<Rightarrow> went es (Some (es2 @ es')) dp)"
  by (simp add: went_def split: option.splits)

lemma went_stop: "active sig dp \<Longrightarrow> stop (went es t dp) = went es (Some (rest t)) dp"
proof (cases t)
  case None
  then show ?thesis by (simp add: went_def)
next
  case (Some es2)
  assume "active sig dp"
  then have "stopped sig (log es2 (stop (log es dp)))" by (simp add: active_stop)
  then show ?thesis using Some by (simp add: went_def stopped_stop)
qed

lemma aborted_went: "active sig dp \<Longrightarrow> aborted sig (snd (went es t dp)) = (t \<noteq> None)"
proof (cases t)
  case None
  assume "active sig dp"
  then show ?thesis using None by (simp add: active_def)
next
  case (Some es2)
  assume "active sig dp"
  then have "stopped sig (stop (log es dp))" by (simp add: active_stop)
  then show ?thesis using Some by (simp add: went_def stopped_def)
qed

text \<open>One more callback, or one more call from outside, on a state of the first phase.\<close>

lemma went_step:
  assumes "active sig dp" "X1 = log ps (went es t dp) \<or> X1 = stop (log ps (went es t dp))"
  shows "\<exists>es1 t1. X1 = went es1 t1 dp \<and> es1 @ rest t1 = es @ rest t @ ps"
proof (cases t)
  case None
  from assms(2) show ?thesis
  proof
    assume "X1 = log ps (went es t dp)"
    then show ?thesis using None by (intro exI [of _ "es @ ps"] exI [of _ None]) simp
  next
    assume "X1 = stop (log ps (went es t dp))"
    then have "X1 = stop (went (es @ ps) None dp)" using None by simp
    then have "X1 = went (es @ ps) (Some []) dp"
      using went_stop [OF assms(1), of "es @ ps" None] by simp
    then show ?thesis using None by (intro exI [of _ "es @ ps"] exI [of _ "Some []"]) simp
  qed
next
  case (Some es2)
  have l: "log ps (went es t dp) = went es (Some (es2 @ ps)) dp" using Some by (simp add: went_log)
  from assms(2) show ?thesis
  proof
    assume "X1 = log ps (went es t dp)"
    then show ?thesis using Some l by (intro exI [of _ es] exI [of _ "Some (es2 @ ps)"]) simp
  next
    assume "X1 = stop (log ps (went es t dp))"
    then have "X1 = went es (Some (es2 @ ps)) dp" using l went_stop [OF assms(1)] by simp
    then show ?thesis using Some by (intro exI [of _ es] exI [of _ "Some (es2 @ ps)"]) simp
  qed
qed

lemma reported_Cons: "reported opts cl (r # rs) = reported opts cl [r] @ reported opts cl rs"
  by (auto simp add: reported_def)

lemma reported_Nil [simp]: "reported opts cl [] = []"
  by (simp add: reported_def)

lemma reported_take: "reported opts cl (take k rs) = take k (reported opts cl rs)"
  by (auto simp add: reported_def take_map)

lemma report_cases:
  assumes "report opts cl r dp = (thr, dp1)"
  shows "dp1 = log (map Progress (reported opts cl [r])) dp
       \<or> dp1 = stop (log (map Progress (reported opts cl [r])) dp)"
  using assms
  by (auto simp add: report_def reported_def invoke_eq emit_log Let_def
      split: if_splits option.splits)

lemma chunks_of_simps [simp]:
  "chunks_of [] = []"
  "chunks_of (Chunk v # steps) = v # chunks_of steps"
  "chunks_of (ReadError m # steps) = chunks_of steps"
  "chunks_of (External c # steps) = chunks_of steps"
  by (simp_all add: chunks_of_def)

lemma read_loop_went:
  assumes "active sig dp" "read_loop opts cl steps acc (went es t dp) = (res, dp')"
  shows "\<exists>es' t' k. dp' = went es' t' dp \<and> k \<le> length (chunks_of steps)
           \<and> es' @ rest t'
               = es @ rest t
                 @ map Progress (reported opts cl (take k (cumulative (snd acc) (chunks_of steps))))
           \<and> (\<forall>acc'. res = Inr acc' \<longrightarrow> k = length (chunks_of steps)
                 \<and> acc' = (fst acc @ chunks_of steps,
                           last (snd acc # cumulative (snd acc) (chunks_of steps))))"
  using assms(2)
proof (induction steps arbitrary: acc es t)
  case Nil
  then show ?case by (intro exI [of _ es] exI [of _ t] exI [of _ 0]) auto
next
  case (Cons s steps)
  show ?case
  proof (cases s)
    case (External c)
    have "read_loop opts cl steps acc (went es (Some (rest t)) dp) = (res, dp')"
      using Cons.prems External by (simp add: run_call_stop went_stop [OF assms(1)])
    from Cons.IH [OF this] show ?thesis by (simp add: External)
  next
    case (ReadError e)
    then have "dp' = went es t dp" "res = Inl e" using Cons.prems by simp_all
    then show ?thesis by (intro exI [of _ es] exI [of _ t] exI [of _ 0]) simp
  next
    case (Chunk v)
    let ?r = "js_add (snd acc) (array_length v)"
    let ?ps = "map Progress (reported opts cl [?r])"
    obtain thr X1 where rep: "report opts cl ?r (went es t dp) = (thr, X1)"
      by (cases "report opts cl ?r (went es t dp)")
    from went_step [OF assms(1) report_cases [OF rep]] obtain es1 t1 where
      X1: "X1 = went es1 t1 dp" and e1: "es1 @ rest t1 = es @ rest t @ ?ps" by blast
    show ?thesis
    proof (cases thr)
      case (Some e)
      then have "res = Inl e" "dp' = X1" using Cons.prems Chunk rep by (simp_all add: Let_def)
      then show ?thesis using X1 e1
        by (intro exI [of _ es1] exI [of _ t1] exI [of _ 1]) (simp add: Chunk)
    next
      case None
      then have "read_loop opts cl steps (fst acc @ [v], ?r) (went es1 t1 dp) = (res, dp')"
        using Cons.prems Chunk rep X1 by (simp add: Let_def)
      from Cons.IH [OF this] obtain es' t' k where
        k: "dp' = went es' t' dp" "k \<le> length (chunks_of steps)"
          "es' @ rest t' = es1 @ rest t1
             @ map Progress (reported opts cl (take k (cumulative ?r (chunks_of steps))))"
          "\<forall>acc'. res = Inr acc' \<longrightarrow> k = length (chunks_of steps)
             \<and> acc' = ((fst acc @ [v]) @ chunks_of steps, last (?r # cumulative ?r (chunks_of steps)))"
        by auto
      have split: "reported opts cl (?r # take k (cumulative ?r (chunks_of steps)))
          = reported opts cl [?r] @ reported opts cl (take k (cumulative ?r (chunks_of steps)))"
        by (rule reported_Cons)
      show ?thesis
        using k e1
        by (intro exI [of _ es'] exI [of _ t'] exI [of _ "Suc k"]) (auto simp add: Chunk split)
    qed
  qed
qed

lemma quiet_simps [simp]:
  "quiet []"
  "quiet (es @ es') = (quiet es \<and> quiet es')"
  "quiet (Started # es) = quiet es"
  "quiet (Fetch u h c # es) = quiet es"
  "quiet (Progress x # es) = quiet es"
  "quiet (map Progress xs)"
  by (auto simp add: quiet_def list_all_iff)

lemma progress_values_simps [simp]:
  "progress_values [] = []"
  "progress_values (es @ es') = progress_values es @ progress_values es'"
  "progress_values (map Progress xs) = xs"
  "progress_values (Started # es) = progress_values es"
  "progress_values (Fetch u h c # es) = progress_values es"
  "progress_values (Progress x # es) = x # progress_values es"
  "progress_values (Abort c # es) = progress_values es"
  "progress_values (Revoke n # es) = progress_values es"
  "progress_values (Create n # es) = progress_values es"
  "progress_values (Success n t # es) = progress_values es"
  "progress_values (Failed k m # es) = progress_values es"
  by (simp_all add: progress_values_def) (induction xs, simp_all)

lemma error_names [simp]:
  "name (type_error m) = ''TypeError''"
  "name (http_error n) = ''Error''"
  "name abort_error = ''AbortError''"
  "name range_error = ''RangeError''"
  "message (type_error m) = m"
  "message (http_error n) = ''HTTP error! status: '' @ show_nat n"
  by (simp_all add: type_error_def http_error_def abort_error_def range_error_def)

lemma fetch_went:
  assumes "active sig dp" "fetch url hs sig net (went es t dp) = (r, X)"
  shows "\<exists>es1 t1. X = went es1 t1 dp \<and> es1 @ rest t1 = es @ rest t @ [Fetch url hs sig]
           \<and> (\<forall>resp. r = Inr resp \<longrightarrow> outcome net = Response resp)"
proof -
  let ?F = "Fetch url hs sig"
  have l: "(fst (went es t dp), emit ?F (snd (went es t dp))) = log [?F] (went es t dp)"
    by (rule emit_log)
  from went_step [OF assms(1), of "log [?F] (went es t dp)" "[?F]" es t] obtain es1 t1 where
    1: "log [?F] (went es t dp) = went es1 t1 dp" "es1 @ rest t1 = es @ rest t @ [?F]" by blast
  from went_step [OF assms(1), of "stop (log [?F] (went es t dp))" "[?F]" es t] obtain es2 t2 where
    2: "stop (log [?F] (went es t dp)) = went es2 t2 dp" "es2 @ rest t2 = es @ rest t @ [?F]" by blast
  have "(X = log [?F] (went es t dp) \<or> X = stop (log [?F] (went es t dp)))
      \<and> (\<forall>resp. r = Inr resp \<longrightarrow> outcome net = Response resp)"
    using assms(2)
    by (auto simp add: fetch_def l Let_def fold_run_call split: if_splits fetch_outcome.splits)
  then show ?thesis using 1 2 by metis
qed

lemma started_went:
  assumes "active sig dp"
    and "(case started opts of Some b \<Rightarrow> invoke b (fst dp, emit Started (snd dp)) | None \<Rightarrow> (None, dp))
             = (thr, X)"
  shows "\<exists>es t. X = went es t dp \<and> quiet (es @ rest t) \<and> progress_values (es @ rest t) = []"
proof (cases "started opts")
  case None
  then have "X = went [] None dp" using assms(2) by simp
  then show ?thesis by (intro exI [of _ "[]"] exI [of _ None]) simp
next
  case (Some b)
  then have "X = log [Started] (went [] None dp) \<or> X = stop (log [Started] (went [] None dp))"
    using assms(2) by (auto simp add: invoke_eq emit_log split: if_splits)
  from went_step [OF assms(1) this] obtain es t where
    "X = went es t dp" "es @ rest t = [Started]" by auto
  then show ?thesis
    using quiet_simps(2) [of es "rest t"] progress_values_simps(2) [of es "rest t"]
    by (intro exI [of _ es] exI [of _ t]) simp
qed

lemma try_block_cases:
  assumes act: "active sig dp" and run: "try_block url opts net sig dp = (res, dp')"
  shows
    "(\<exists>es t e. res = Inl e \<and> dp' = went es t dp \<and> quiet (es @ rest t)
        \<and> prefix (progress_values (es @ rest t)) (all_reports opts net))
   \<or> (\<exists>es t r steps. outcome net = Response r \<and> ok r \<and> body r = Some steps \<and> quiet (es @ rest t)
        \<and> progress_values (es @ rest t) = all_reports opts net
        \<and> (res, dp') = finish opts (content_type r)
             (chunks_of steps, last (Fin 0 # cumulative (Fin 0) (chunks_of steps))) (went es t dp))"
    (is "?A \<or> ?C")
proof -
  let ?hs = "case headers opts of Some h \<Rightarrow> h | None \<Rightarrow> []"
  let ?F = "Fetch url ?hs sig"
  obtain thr X0 where st:
    "(case started opts of Some b \<Rightarrow> invoke b (fst dp, emit Started (snd dp)) | None \<Rightarrow> (None, dp))
       = (thr, X0)"
    by (cases "case started opts of Some b \<Rightarrow> invoke b (fst dp, emit Started (snd dp)) | None \<Rightarrow> (None, dp)")
  from started_went [OF act st] obtain es0 t0 where X0: "X0 = went es0 t0 dp"
    and q0: "quiet (es0 @ rest t0)" "progress_values (es0 @ rest t0) = []" by blast
  show ?thesis
  proof (cases thr)
    case (Some e)
    then have "res = Inl e" "dp' = X0" using run st by (simp_all add: try_block_def)
    then have ?A using X0 q0 by (intro exI [of _ es0] exI [of _ t0] exI [of _ e]) simp
    then show ?thesis by blast
  next
    case None
    obtain fr X1 where fe: "fetch url ?hs sig net X0 = (fr, X1)"
      by (cases "fetch url ?hs sig net X0")
    from fetch_went [OF act fe [unfolded X0]] obtain es1 t1 where X1: "X1 = went es1 t1 dp"
      and e1: "es1 @ rest t1 = es0 @ rest t0 @ [?F]"
      and f1: "\<forall>resp. fr = Inr resp \<longrightarrow> outcome net = Response resp" by blast
    have q1: "quiet (es1 @ rest t1)" "progress_values (es1 @ rest t1) = []"
      using q0 by (simp_all add: e1)
    have run1: "(case fr of
          Inl e \<Rightarrow> (Inl e, X1)
        | Inr response \<Rightarrow>
            if \<not> ok response then (Inl (http_error (status response)), X1)
            else (case body response of
                       None \<Rightarrow> (Inl (type_error ''response.body is null''), X1)
                     | Some reader \<Rightarrow>
                         (case read_loop opts (to_number (content_length response)) reader ([], Fin 0) X1 of
                               (Inl e, dp) \<Rightarrow> (Inl e, dp)
                             | (Inr acc, dp) \<Rightarrow> finish opts (content_type response) acc dp))) = (res, dp')"
      using run st None fe
      by (cases fr; cases "body (projr fr)") (auto simp add: try_block_def Let_def)
    have early: ?A if "res = Inl e" "dp' = X1" for e
      using that X1 q1 by (intro exI [of _ es1] exI [of _ t1] exI [of _ e]) simp
    show ?thesis
    proof (cases fr)
      case (Inl e)
      then have "res = Inl e" "dp' = X1" using run1 by simp_all
      then show ?thesis using early by blast
    next
      case (Inr r)
      then have out: "outcome net = Response r" using f1 by simp
      note run2 = run1 [unfolded Inr sum.case]
      show ?thesis
      proof (cases "ok r")
        case False
        then have "res = Inl (http_error (status r))" "dp' = X1" using run2 by simp_all
        then show ?thesis using early by blast
      next
        case ok: True
        show ?thesis
        proof (cases "body r")
          case None
          then have "res = Inl (type_error ''response.body is null'')" "dp' = X1"
            using run2 ok by simp_all
          then show ?thesis using early by blast
        next
          case (Some steps)
          let ?cl = "to_number (content_length r)"
          let ?cum = "cumulative (Fin 0) (chunks_of steps)"
          have ar: "all_reports opts net = reported opts ?cl ?cum"
            using out Some by (simp add: all_reports_def)
          obtain lres X2 where loop: "read_loop opts ?cl steps ([], Fin 0) X1 = (lres, X2)"
            by (cases "read_loop opts ?cl steps ([], Fin 0) X1")
          from read_loop_went [OF act loop [unfolded X1]] obtain es2 t2 k where
            X2: "X2 = went es2 t2 dp" and k: "k \<le> length (chunks_of steps)"
            and e2: "es2 @ rest t2 = es1 @ rest t1 @ map Progress (reported opts ?cl (take k ?cum))"
            and full: "\<forall>acc'. lres = Inr acc' \<longrightarrow> k = length (chunks_of steps)
                  \<and> acc' = (chunks_of steps, last (Fin 0 # ?cum))"
            by auto
          have q2: "quiet (es2 @ rest t2)" using q1 by (simp add: e2)
          have pv: "progress_values (es2 @ rest t2) = take k (all_reports opts net)"
            using q1 by (simp add: e2 ar reported_take)
          have pre: "prefix (progress_values (es2 @ rest t2)) (all_reports opts net)"
            unfolding pv by (rule take_is_prefix)
          show ?thesis
          proof (cases lres)
            case (Inl e)
            then have "res = Inl e" "dp' = X2" using run2 ok Some loop by simp_all
            then have ?A using X2 q2 pre by (intro exI [of _ es2] exI [of _ t2] exI [of _ e]) simp
            then show ?thesis by blast
          next
            case (Inr acc')
            then have kk: "k = length (chunks_of steps)"
              and acc': "acc' = (chunks_of steps, last (Fin 0 # ?cum))" using full by simp_all
            have "(res, dp') = finish opts (content_type r) acc' X2"
              using run2 ok Some loop Inr by simp
            moreover have "progress_values (es2 @ rest t2) = all_reports opts net"
              using pv kk by (simp add: ar reported_def)
            ultimately have ?C using out ok Some q2 X2 acc'
              by (intro exI [of _ es2] exI [of _ t2] exI [of _ r] exI [of _ steps]) simp
            then show ?thesis by blast
          qed
        qed
      qed
    qed
  qed
qed

lemma new_Uint8Array_range:
  assumes "tracks n r" "new_Uint8Array limit r = Inl e"
  shows "e = range_error" and "min limit (2 ^ 53 - 1) < n"
proof -
  show "e = range_error"
    using assms(2) by (auto simp add: new_Uint8Array_def Let_def split: js_number.splits if_splits)
  show "min limit (2 ^ 53 - 1) < n"
  proof (cases "n \<le> 2 ^ 53")
    case True
    then have "r = Fin (of_nat n)" using assms(1) by (simp add: tracks_def)
    then show ?thesis using assms(2) by (simp add: new_Uint8Array_def Let_def split: if_splits)
  next
    case False
    then show ?thesis by simp
  qed
qed

lemma new_Uint8Array_fits:
  assumes "tracks n r" "new_Uint8Array limit r = Inr z"
  shows "n \<le> min limit (2 ^ 53 - 1)"
proof -
  have "r = Fin (of_nat n)" using assms by (rule new_Uint8Array_tracks)
  then have "\<not> min limit (2 ^ 53 - 1) < n"
    using assms(2) by (simp add: new_Uint8Array_def Let_def split: if_splits)
  then show ?thesis by (simp only: not_less)
qed

lemma length_objects_released [simp]: "length (objects (released dp)) = length (objects (snd dp))"
  by (simp add: released_def revokeObjectURL_def emit_def split: option.splits)

lemma max_length_released [simp]: "max_length (released dp) = max_length (snd dp)"
  by (simp add: released_def revokeObjectURL_def emit_def split: option.splits)

lemma tracks_zero: "tracks 0 (Fin 0)"
  by (simp add: tracks_def)

lemma tracks_total:
  "tracks (length (concat vs)) (last (Fin 0 # cumulative (Fin 0) vs))"
  using tracks_cumulative [OF tracks_zero, of vs] by simp

lemma finish_cases:
  assumes tr: "tracks (length (concat vs)) r" and run: "finish opts ct (vs, r) dp = (res, dp')"
  shows "(res = Inl range_error \<and> dp' = (fst dp, released dp)
          \<and> min (max_length (snd dp)) (2 ^ 53 - 1) < length (concat vs))
       \<or> (length (concat vs) \<le> min (max_length (snd dp)) (2 ^ 53 - 1)
          \<and> (case success opts of
             None \<Rightarrow> res = Inr (Some (length (objects (snd dp)))) \<and> dp' = published ct vs dp
           | Some f \<Rightarrow>
               dp' = (if fst (f (length (objects (snd dp))) ct) = []
                      then log [Success (length (objects (snd dp))) ct] (published ct vs dp)
                      else stop (log [Success (length (objects (snd dp))) ct] (published ct vs dp)))
               \<and> res = (case snd (f (length (objects (snd dp))) ct) of
                          Some e \<Rightarrow> Inl e
                        | None \<Rightarrow> Inr (blobUrl (fst dp')))))"
proof (cases "new_Uint8Array (max_length (released dp)) r")
  case (Inl e)
  from new_Uint8Array_range [OF tr Inl]
  have "e = range_error" "min (max_length (snd dp)) (2 ^ 53 - 1) < length (concat vs)" by simp_all
  then show ?thesis using run Inl by (simp add: finish_def released_def Let_def)
next
  case (Inr z)
  from new_Uint8Array_tracks [OF tr Inr]
  have n: "length (concat vs) < 2 ^ 53" and z: "z = replicate (length (concat vs)) 0" by simp_all
  have fits: "length (concat vs) \<le> min (max_length (snd dp)) (2 ^ 53 - 1)"
    using new_Uint8Array_fits [OF tr Inr] by simp
  have "combine vs z (Fin (of_nat 0)) = Inr (take 0 z @ concat vs @ drop (0 + length (concat vs)) z)"
    using n by (intro combine_exact) (simp_all add: z)
  then have comb: "combine vs z (Fin 0) = Inr (concat vs)" by (simp add: z)
  have "case success opts of
             None \<Rightarrow> res = Inr (Some (length (objects (snd dp)))) \<and> dp' = published ct vs dp
           | Some f \<Rightarrow>
               dp' = (if fst (f (length (objects (snd dp))) ct) = []
                      then log [Success (length (objects (snd dp))) ct] (published ct vs dp)
                      else stop (log [Success (length (objects (snd dp))) ct] (published ct vs dp)))
               \<and> res = (case snd (f (length (objects (snd dp))) ct) of
                          Some e \<Rightarrow> Inl e
                        | None \<Rightarrow> Inr (blobUrl (fst dp')))"
    using run Inr comb
    by (auto simp add: finish_def released_def [symmetric] published_def createObjectURL_def
        Let_def invoke_eq emit_log_pair split: option.splits)
  then show ?thesis using fits by blast
qed

text \<open>The call of \<^verbatim>\<open>failed\<close>, as an event.\<close>

lemma catch_block_cases:
  assumes "catch_block opts e dp = (res, dp')"
  shows "case failed opts of
           None \<Rightarrow> res = Inl e \<and> dp' = dp
         | Some f \<Rightarrow>
             (case e of
                Nullish \<Rightarrow> res = Inl null_error \<and> dp' = dp
              | JsError n m \<Rightarrow>
                  dp' = (if fst (f (fst (kind_of n m)) (snd (kind_of n m))) = []
                         then log [Failed (fst (kind_of n m)) (snd (kind_of n m))] dp
                         else stop (log [Failed (fst (kind_of n m)) (snd (kind_of n m))] dp))
                  \<and> res = Inl (case snd (f (fst (kind_of n m)) (snd (kind_of n m))) of
                                  Some e' \<Rightarrow> e' | None \<Rightarrow> e))"
  using assms
  by (auto simp add: catch_block_def kind_of_def invoke_eq emit_log Let_def
      split: option.splits js_error.splits)

lemma active_begun: "active (length (controllers (snd dp))) (begun dp)"
  by (simp add: active_def begun_def aborted_def nth_append)

lemma download_eq:
  "download url opts net dp =
     (case try_block url opts net (length (controllers (snd dp))) (begun dp) of
        (Inl error, dp) \<Rightarrow> catch_block opts error dp
      | (Inr url, dp) \<Rightarrow> (Inr url, dp))"
  by (simp add: download_def new_AbortController_def begun_def)

lemma stop_simps [simp]:
  "controller (fst (stop dp)) = None"
  "blobUrl (fst (stop dp)) = None"
  "objects (snd (stop dp)) = objects (released dp)"
  "max_length (snd (stop dp)) = max_length (snd dp)"
  "trace (snd (stop dp)) = trace (snd dp) @ stop_events dp"
  by (cases dp; simp add: stop_def stop_events_def released_def abort_def revokeObjectURL_def emit_def
      split: option.splits)+

lemma trace_released [simp]: "trace (released dp) = trace (snd dp) @ release_events dp"
  by (simp add: released_def release_events_def revokeObjectURL_def emit_def split: option.splits)

lemma objects_released:
  "objects (released dp) = (case blobUrl (fst dp) of
                              Some u \<Rightarrow> (objects (snd dp))[u := None]
                            | None \<Rightarrow> objects (snd dp))"
  by (simp add: released_def revokeObjectURL_def emit_def split: option.splits)

lemma published_simps [simp]:
  "controller (fst (published ct vs dp)) = controller (fst dp)"
  "blobUrl (fst (published ct vs dp)) = Some (length (objects (snd dp)))"
  "objects (snd (published ct vs dp)) = objects (released dp) @ [Some \<lparr>bytes = concat vs, btype = ct\<rparr>]"
  "max_length (snd (published ct vs dp)) = max_length (snd dp)"
  "trace (snd (published ct vs dp))
     = trace (snd dp) @ release_events dp @ [Create (length (objects (snd dp)))]"
  by (simp_all add: published_def createObjectURL_def emit_def)

lemma begun_simps [simp]:
  "controller (fst (begun dp)) = Some (length (controllers (snd dp)))"
  "blobUrl (fst (begun dp)) = blobUrl (fst dp)"
  "objects (snd (begun dp)) = objects (snd dp)"
  "max_length (snd (begun dp)) = max_length (snd dp)"
  "trace (snd (begun dp)) = trace (snd dp)"
  by (simp_all add: begun_def)

lemma event_list_simps [simp]:
  "stop_events (log es dp) = stop_events dp"
  "release_events (log es dp) = release_events dp"
  "release_events (begun dp) = release_events dp"
  by (simp_all add: stop_events_def release_events_def)

lemma objects_released_log [simp]: "objects (released (log es dp)) = objects (released dp)"
  by (simp add: objects_released split: option.splits)

lemma went_simps [simp]:
  "controller (fst (went es t dp)) = (if t = None then controller (fst dp) else None)"
  "blobUrl (fst (went es t dp)) = (if t = None then blobUrl (fst dp) else None)"
  "objects (snd (went es t dp)) = (if t = None then objects (snd dp) else objects (released dp))"
  "max_length (snd (went es t dp)) = max_length (snd dp)"
  "trace (snd (went es t dp))
     = trace (snd dp) @ es @ (if t = None then [] else stop_events dp @ rest t)"
  by (simp_all add: went_def split: option.splits)

lemma length_objects_went: "length (objects (snd (went es t dp))) = length (objects (snd dp))"
  by simp

lemma try_block_shapes [consumes 2, case_names early range published]:
  assumes "active sig dp" "try_block url opts net sig dp = (res, dp')"
  obtains
    (early) es t e where "res = Inl e" "dp' = went es t dp" "quiet es" "quiet (rest t)"
      "prefix (progress_values (es @ rest t)) (all_reports opts net)"
  | (range) es t r steps where "quiet es" "quiet (rest t)"
      "progress_values (es @ rest t) = all_reports opts net"
      "res = Inl range_error" "dp' = (fst (went es t dp), released (went es t dp))"
      "outcome net = Response r" "ok r" "body r = Some steps"
      "min (max_length (snd dp)) (2 ^ 53 - 1) < length (concat (chunks_of steps))"
  | (published) es t r steps where "outcome net = Response r" "ok r" "body r = Some steps"
      "quiet es" "quiet (rest t)" "progress_values (es @ rest t) = all_reports opts net"
      "length (concat (chunks_of steps)) \<le> min (max_length (snd dp)) (2 ^ 53 - 1)"
      "case success opts of
         None \<Rightarrow> res = Inr (Some (length (objects (snd dp))))
           \<and> dp' = published (content_type r) (chunks_of steps) (went es t dp)
       | Some f \<Rightarrow>
           dp' = (if fst (f (length (objects (snd dp))) (content_type r)) = []
                  then log [Success (length (objects (snd dp))) (content_type r)]
                         (published (content_type r) (chunks_of steps) (went es t dp))
                  else stop (log [Success (length (objects (snd dp))) (content_type r)]
                         (published (content_type r) (chunks_of steps) (went es t dp))))
           \<and> res = (case snd (f (length (objects (snd dp))) (content_type r)) of
                      Some e \<Rightarrow> Inl e
                    | None \<Rightarrow> Inr (blobUrl (fst dp')))"
proof -
  from try_block_cases [OF assms] consider
    (A) es t e where "res = Inl e" "dp' = went es t dp" "quiet (es @ rest t)"
      "prefix (progress_values (es @ rest t)) (all_reports opts net)"
  | (C) es t r steps where "outcome net = Response r" "ok r" "body r = Some steps"
      "quiet (es @ rest t)" "progress_values (es @ rest t) = all_reports opts net"
      "finish opts (content_type r)
         (chunks_of steps, last (Fin 0 # cumulative (Fin 0) (chunks_of steps))) (went es t dp) = (res, dp')"
    by (elim disjE exE conjE) (metis, metis)
  then show ?thesis
  proof cases
    case A
    then show ?thesis by (intro early [of e es t]) simp_all
  next
    case C
    from finish_cases [OF tracks_total C(6), unfolded length_objects_went went_simps(4)]
    show ?thesis
    proof (elim disjE conjE)
      assume "res = Inl range_error" "dp' = (fst (went es t dp), released (went es t dp))"
        "min (max_length (snd dp)) (2 ^ 53 - 1) < length (concat (chunks_of steps))"
      then show ?thesis using C(1-5) by (intro range [of es t r steps]) simp_all
    next
      assume "length (concat (chunks_of steps)) \<le> min (max_length (snd dp)) (2 ^ 53 - 1)"
        and "case success opts of
         None \<Rightarrow> res = Inr (Some (length (objects (snd dp))))
           \<and> dp' = published (content_type r) (chunks_of steps) (went es t dp)
       | Some f \<Rightarrow>
           dp' = (if fst (f (length (objects (snd dp))) (content_type r)) = []
                  then log [Success (length (objects (snd dp))) (content_type r)]
                         (published (content_type r) (chunks_of steps) (went es t dp))
                  else stop (log [Success (length (objects (snd dp))) (content_type r)]
                         (published (content_type r) (chunks_of steps) (went es t dp))))
           \<and> res = (case snd (f (length (objects (snd dp))) (content_type r)) of
                      Some e \<Rightarrow> Inl e
                    | None \<Rightarrow> Inr (blobUrl (fst dp')))"
      then show ?thesis using C(1-5) by (intro published [of r steps es t]) simp_all
    qed
  qed
qed

lemma emitted_append [simp]: "trace p' = trace p @ es \<Longrightarrow> emitted p p' = es"
  by (simp add: emitted_def)

lemma progress_values_stop_events [simp]: "progress_values (stop_events dp) = []"
  by (simp add: stop_events_def split: option.splits)

lemma progress_values_release_events [simp]: "progress_values (release_events dp) = []"
  by (simp add: release_events_def split: option.splits)

lemma catch_block_trace:
  assumes "catch_block opts e dp = (res, dp')"
  shows "\<exists>es. trace (snd dp') = trace (snd dp) @ es \<and> progress_values es = []"
proof -
  have "dp' = dp \<or> (\<exists>F. dp' = log [Failed (fst F) (snd F)] dp
      \<or> dp' = stop (log [Failed (fst F) (snd F)] dp))"
    using catch_block_cases [OF assms]
    by (auto split: option.splits js_error.splits if_splits)
  then show ?thesis
  proof (elim disjE exE)
    assume "dp' = dp"
    then show ?thesis by simp
  next
    fix F assume "dp' = log [Failed (fst F) (snd F)] dp"
    then show ?thesis by (intro exI [of _ "[Failed (fst F) (snd F)]"]) simp
  next
    fix F assume "dp' = stop (log [Failed (fst F) (snd F)] dp)"
    then show ?thesis
      by (intro exI [of _ "[Failed (fst F) (snd F)] @ stop_events dp"]) simp
  qed
qed

lemma progress_values_went:
  "\<exists>es'. trace (snd (went es t dp)) = trace (snd dp) @ es'
         \<and> progress_values es' = progress_values (es @ rest t)"
  by (cases t) (simp_all del: went_simps add: went_def)

lemma try_block_progress:
  assumes "active sig dp" "try_block url opts net sig dp = (res, dp')"
  shows "\<exists>es. trace (snd dp') = trace (snd dp) @ es
           \<and> prefix (progress_values es) (all_reports opts net)
           \<and> (\<not> isl res \<longrightarrow> progress_values es = all_reports opts net)"
  using assms
proof (cases rule: try_block_shapes)
  case (early es t e)
  from progress_values_went [of es t dp] obtain es' where
    "trace (snd (went es t dp)) = trace (snd dp) @ es'"
    "progress_values es' = progress_values (es @ rest t)" by blast
  then show ?thesis using early by (intro exI [of _ es']) simp
next
  case (range es t r steps)
  from progress_values_went [of es t dp] obtain es' where
    "trace (snd (went es t dp)) = trace (snd dp) @ es'"
    "progress_values es' = progress_values (es @ rest t)" by blast
  then show ?thesis using range
    by (intro exI [of _ "es' @ release_events (went es t dp)"]) simp
next
  case (published es t r steps)
  let ?h = "length (objects (snd dp))"
  let ?X = "went es t dp"
  let ?Y = "published (content_type r) (chunks_of steps) ?X"
  let ?S = "Success ?h (content_type r)"
  from progress_values_went [of es t dp] obtain es' where
    es': "trace (snd ?X) = trace (snd dp) @ es'"
    "progress_values es' = progress_values (es @ rest t)" by blast
  have "dp' = ?Y \<or> dp' = log [?S] ?Y \<or> dp' = stop (log [?S] ?Y)"
    using published(8) by (auto split: option.splits if_splits)
  then show ?thesis
  proof (elim disjE)
    assume "dp' = ?Y"
    then show ?thesis using published(6) es'
      by (intro exI [of _ "es' @ release_events ?X @ [Create ?h]"]) simp
  next
    assume "dp' = log [?S] ?Y"
    then show ?thesis using published(6) es'
      by (intro exI [of _ "es' @ release_events ?X @ [Create ?h, ?S]"]) simp
  next
    assume "dp' = stop (log [?S] ?Y)"
    then show ?thesis using published(6) es'
      by (intro exI [of _ "es' @ release_events ?X @ [Create ?h, ?S] @ stop_events ?Y"]) simp
  qed
qed

lemma download_progress:
  assumes "download url opts net dp = (res, dp')"
  shows "prefix (progress_values (emitted (snd dp) (snd dp'))) (all_reports opts net)"
    and "\<not> isl res \<Longrightarrow> progress_values (emitted (snd dp) (snd dp')) = all_reports opts net"
proof -
  let ?sig = "length (controllers (snd dp))"
  obtain tres Z where t: "try_block url opts net ?sig (begun dp) = (tres, Z)"
    by (cases "try_block url opts net ?sig (begun dp)")
  from try_block_progress [OF active_begun t] obtain es where
    es: "trace (snd Z) = trace (snd dp) @ es" "prefix (progress_values es) (all_reports opts net)"
      "\<not> isl tres \<longrightarrow> progress_values es = all_reports opts net" by auto
  have "\<exists>es'. trace (snd dp') = trace (snd dp) @ es @ es' \<and> progress_values es' = []
          \<and> (\<not> isl res \<longrightarrow> \<not> isl tres)"
  proof (cases tres)
    case (Inr u)
    then have "dp' = Z" "res = Inr u" using assms t by (simp_all add: download_eq)
    then show ?thesis using es(1) Inr by (intro exI [of _ "[]"]) simp
  next
    case (Inl e)
    then have c: "catch_block opts e Z = (res, dp')" using assms t by (simp add: download_eq)
    have "isl res" using catch_block_cases [OF c] by (auto split: option.splits js_error.splits)
    then show ?thesis using catch_block_trace [OF c] es(1) by auto
  qed
  then obtain es' where es': "trace (snd dp') = trace (snd dp) @ es @ es'"
    "progress_values es' = []" "\<not> isl res \<longrightarrow> \<not> isl tres" by blast
  then have em: "emitted (snd dp) (snd dp') = es @ es'" by simp
  show "prefix (progress_values (emitted (snd dp) (snd dp'))) (all_reports opts net)"
    using es(2) es'(2) by (simp add: em)
  show "\<not> isl res \<Longrightarrow> progress_values (emitted (snd dp) (snd dp')) = all_reports opts net"
    using es(3) es'(2,3) by (simp add: em)
qed

section \<open>Progress reports\<close>

lemma string_to_number_0: "string_to_number ''0'' = Fin 0"
  by (simp add: string_to_number_def trim_def is_ws_def nondecimal_def unsigned_decimal_def
      is_digit_def digit_of_def exponent_part_def radix_val_def Let_def)

lemma string_to_number_abc: "string_to_number ''abc'' = NaN"
  by (simp add: string_to_number_def trim_def is_ws_def nondecimal_def unsigned_decimal_def
      is_digit_def digit_of_def exponent_part_def radix_val_def Let_def)

lemma string_to_number_1000: "string_to_number ''1000'' = Fin 1000"
  using to_double_of_nat [of 1000]
  by (simp add: string_to_number_def trim_def is_ws_def nondecimal_def unsigned_decimal_def
      is_digit_def digit_of_def exponent_part_def radix_val_def Let_def)

lemma to_double_numeral [simp]:
  "numeral k \<le> (2 ^ 53 :: nat) \<Longrightarrow> to_double (numeral k) = Fin (numeral k)"
  using to_double_of_nat [of "numeral k"] by simp

lemmas run_defs = download_def new_AbortController_def try_block_def fetch_def emit_def aborted_def
  ok_def report_def percent_of_def invoke_def run_call_def array_length_def finish_def
  new_Uint8Array_def typed_array_set_def to_integer_def createObjectURL_def revokeObjectURL_def
  catch_block_def Let_def to_number_def stop_def cleanup_def abort_def
  p0_def no_options_def new_downloader_def returns_def emitted_def
  progress_values_def failed_calls_def success_calls_def created_def

lemmas parse_defs = string_to_number_def trim_def is_ws_def nondecimal_def unsigned_decimal_def
  is_digit_def digit_of_def exponent_part_def radix_val_def

lemma all_reports_falsy:
  assumes "\<forall>r. outcome net = Response r \<longrightarrow> \<not> truthy (to_number (content_length r))"
  shows "all_reports opts net = []"
  using assms by (simp add: all_reports_def reported_def split: fetch_outcome.splits option.splits)

text \<open>
  C9. When the response carries no \<^verbatim>\<open>Content-Length\<close> header (or there is no response at
  all), no \<^verbatim>\<open>Progress\<close> event is among the events of the transfer, whatever chunks arrive
  and whatever the callbacks do.
\<close>

theorem no_total_length_no_progress:
  assumes "download url opts net dp = (res, dp')"
    and "\<forall>r. outcome net = Response r \<longrightarrow> content_length r = None"
  shows "progress_values (emitted (snd dp) (snd dp')) = []"
proof -
  have "all_reports opts net = []"
    using assms(2) by (intro all_reports_falsy) (auto simp add: to_number_def)
  then show ?thesis using download_progress(1) [OF assms(1)] by simp
qed

theorem no_total_length_no_progress_witness:
  "progress_values (emitted p0 (snd (snd (download ''u'' (no_options\<lparr>progress := Some (\<lambda>x. returns)\<rparr>)
     \<lparr>pending = [], outcome = Response \<lparr>status = 200, content_type = None,
        content_length = None, body = Some [Chunk [1, 2], Chunk [3]]\<rparr>\<rparr>
     (new_downloader, p0))))) = []
   \<and> fst (download ''u'' (no_options\<lparr>progress := Some (\<lambda>x. returns)\<rparr>)
     \<lparr>pending = [], outcome = Response \<lparr>status = 200, content_type = None,
        content_length = None, body = Some [Chunk [1, 2], Chunk [3]]\<rparr>\<rparr>
     (new_downloader, p0)) = Inr (Some 0)"
proof -
  let ?run = "download ''u'' (no_options\<lparr>progress := Some (\<lambda>x. returns)\<rparr>)
     \<lparr>pending = [], outcome = Response \<lparr>status = 200, content_type = None,
        content_length = None, body = Some [Chunk [1, 2], Chunk [3]]\<rparr>\<rparr>
     (new_downloader, p0)"
  have "progress_values (emitted (snd (new_downloader, p0)) (snd (snd ?run))) = []"
    by (rule no_total_length_no_progress [of _ _ _ _ "fst ?run"]) auto
  moreover have "fst ?run = Inr (Some 0)" by (simp add: run_defs)
  ultimately show ?thesis by simp
qed

lemma report_falsy: "\<not> truthy cl \<Longrightarrow> report opts cl r dp = (None, dp)"
  by (simp add: report_def)

lemma read_loop_falsy:
  "\<not> truthy cl \<Longrightarrow> \<not> truthy cl'
   \<Longrightarrow> read_loop opts cl steps acc dp = read_loop opts cl' steps acc dp"
proof (induction steps arbitrary: acc dp)
  case Nil
  then show ?case by simp
next
  case (Cons s steps)
  then show ?case by (cases s) (simp_all add: report_falsy Let_def)
qed

lemma try_block_falsy:
  assumes "outcome net = Response r" "\<not> truthy (to_number (content_length r))"
  shows "try_block url opts net sig dp
       = try_block url opts (net\<lparr>outcome := Response (r\<lparr>content_length := None\<rparr>)\<rparr>) sig dp"
proof -
  have "read_loop opts (to_number (content_length r)) steps acc dp'
      = read_loop opts (Fin 0) steps acc dp'" for steps acc dp'
    using assms(2) by (intro read_loop_falsy) simp_all
  then show ?thesis
    using assms(1)
    by (simp add: try_block_def fetch_def ok_def to_number_def Let_def
        split: option.splits prod.splits sum.splits)
qed

text \<open>
  C10. A \<^verbatim>\<open>Content-Length\<close> header whose value is \<^verbatim>\<open>"0"\<close>, or a string that
  \<^verbatim>\<open>StringToNumber\<close> takes to NaN, makes \<^verbatim>\<open>contentLength\<close> falsy; \<^verbatim>\<open>download\<close> then runs
  exactly as it does on the same response without the header, and no \<^verbatim>\<open>Progress\<close> event is
  among the events of the transfer.
\<close>

theorem zero_or_unparseable_length_is_absent:
  assumes "outcome net = Response r" "content_length r = Some s"
    and "s = ''0'' \<or> string_to_number s = NaN"
  shows "\<not> truthy (to_number (content_length r))
       \<and> download url opts net dp
           = download url opts (net\<lparr>outcome := Response (r\<lparr>content_length := None\<rparr>)\<rparr>) dp
       \<and> progress_values (emitted (snd dp) (snd (snd (download url opts net dp)))) = []"
proof -
  have f: "\<not> truthy (to_number (content_length r))"
    using assms(2,3) by (auto simp add: to_number_def string_to_number_0)
  have "all_reports opts net = []"
    using assms(1) f by (intro all_reports_falsy) auto
  then have "progress_values (emitted (snd dp) (snd (snd (download url opts net dp)))) = []"
    using download_progress(1) [of url opts net dp "fst (download url opts net dp)"
        "snd (download url opts net dp)"] by simp
  then show ?thesis
    using f try_block_falsy [OF assms(1) f] by (simp add: download_def)
qed

theorem zero_or_unparseable_length_is_absent_witness:
  "string_to_number ''abc'' = NaN
   \<and> progress_values (emitted p0 (snd (snd (download ''u'' (no_options\<lparr>progress := Some (\<lambda>x. returns)\<rparr>)
       \<lparr>pending = [], outcome = Response \<lparr>status = 200, content_type = None,
          content_length = Some ''abc'', body = Some [Chunk [1, 2], Chunk [3]]\<rparr>\<rparr>
       (new_downloader, p0))))) = []
   \<and> progress_values (emitted p0 (snd (snd (download ''u'' (no_options\<lparr>progress := Some (\<lambda>x. returns)\<rparr>)
       \<lparr>pending = [], outcome = Response \<lparr>status = 200, content_type = None,
          content_length = Some ''0'', body = Some [Chunk [1, 2], Chunk [3]]\<rparr>\<rparr>
       (new_downloader, p0))))) = []"
proof -
  let ?r = "\<lambda>s. \<lparr>status = 200, content_type = None,
          content_length = Some s, body = Some [Chunk [1, 2], Chunk [3]]\<rparr>"
  have "progress_values (emitted (snd (new_downloader, p0))
          (snd (snd (download ''u'' (no_options\<lparr>progress := Some (\<lambda>x. returns)\<rparr>)
             \<lparr>pending = [], outcome = Response (?r s)\<rparr> (new_downloader, p0))))) = []"
    if "s = ''0'' \<or> string_to_number s = NaN" for s
    by (rule zero_or_unparseable_length_is_absent
      [of "\<lparr>pending = [], outcome = Response (?r s)\<rparr>" "?r s" s,
        THEN conjunct2, THEN conjunct2]) (simp_all add: that)
  from this [of "''abc''"] this [of "''0''"] show ?thesis
    by (simp add: string_to_number_abc)
qed

lemma to_double_dyadic:
  assumes "0 \<le> m" "m \<le> 2 ^ 53" "- 1074 \<le> q" "q \<le> 0"
  shows "to_double (of_int m * 2 powi q) = Fin (of_int m * 2 powi q)"
proof -
  let ?x = "of_int m * 2 powi q :: rat"
  have "(of_int m :: rat) \<le> of_int (2 ^ 53)" using assms(2) by (simp only: of_int_le_iff)
  then have "?x \<le> of_int (2 ^ 53) * 2 powi q" by (rule mult_two_powi_mono)
  also have "\<dots> \<le> of_int (2 ^ 53) * 2 powi 0"
    using assms(4) by (intro mult_left_mono two_powi_mono) simp_all
  finally have hi: "?x < 2 ^ 1024" by simp
  have lo: "0 \<le> ?x" using assms(1) two_powi_pos [of q] by simp
  have "round64 ?x = ?x" using lo round_pos_fix [OF assms(1-3)] by (simp add: round64_def)
  moreover have "\<not> ?x \<le> - (2 ^ 1024)" using lo by (simp add: not_le less_le_trans [of _ 0])
  ultimately show ?thesis using hi by (simp add: to_double_def)
qed

lemma to_double_quarters [simp]:
  "to_double (1 / 4) = Fin (1 / 4)"
  "to_double (1 / 2) = Fin (1 / 2)"
  "to_double (3 / 4) = Fin (3 / 4)"
  using to_double_dyadic [of 1 "- 2"] to_double_dyadic [of 1 "- 1"] to_double_dyadic [of 3 "- 2"]
  by (simp_all add: power_int_minus_divide)

lemma is_double_zero: "is_double (Fin 0)"
  by (simp add: is_double_def)

lemma cumulative_percent_sorted:
  assumes "0 < l"
  shows "sorted_wrt js_le (map (\<lambda>x. percent_of x (Fin l)) (cumulative (Fin 0) vs))"
proof -
  have "sorted_wrt js_le (cumulative (Fin 0) vs)"
    using is_double_zero by (rule cumulative_sorted) simp
  then have "sorted_wrt (\<lambda>x y. js_le (percent_of x (Fin l)) (percent_of y (Fin l))) (cumulative (Fin 0) vs)"
    by (rule sorted_wrt_mono_rel [rotated]) (simp add: percent_of_mono [OF assms])
  then show ?thesis by (simp add: sorted_wrt_map)
qed

lemma all_reports_eq:
  assumes "outcome net = Response r" "body r = Some steps" "progress opts = Some f"
    and "to_number (content_length r) = Fin l" "l \<noteq> 0"
  shows "all_reports opts net
       = map (\<lambda>x. percent_of x (Fin l)) (cumulative (Fin 0) (chunks_of steps))"
  using assms by (simp add: all_reports_def reported_def)

text \<open>
  C8, as the code has it. When the response advertises a total length \<open>L > 0\<close> and
  \<^verbatim>\<open>receivedLength\<close> never exceeds \<open>L\<close>, every value passed to the progress callback is an
  integer from 0 to 100. (Nothing in \<^verbatim>\<open>download\<close> bounds the value: when more bytes arrive
  than the header advertised, the value can exceed 100.)
\<close>

theorem progress_within_0_100:
  assumes "download url opts net dp = (res, dp')"
    and "outcome net = Response r" "body r = Some steps"
    and "to_number (content_length r) = Fin l" "0 < l"
    and "\<forall>x\<in>set (cumulative (Fin 0) (chunks_of steps)). js_le x (Fin l)"
  shows "\<forall>x\<in>set (progress_values (emitted (snd dp) (snd dp'))).
           \<exists>k. x = Fin (of_int k) \<and> 0 \<le> k \<and> k \<le> 100"
proof
  fix x
  let ?cum = "cumulative (Fin 0) (chunks_of steps)"
  assume "x \<in> set (progress_values (emitted (snd dp) (snd dp')))"
  then have "x \<in> set (all_reports opts net)"
    using download_progress(1) [OF assms(1)] set_mono_prefix by blast
  then have "x \<in> set (reported opts (Fin l) ?cum)"
    using assms(2-4) by (simp add: all_reports_def)
  then obtain c where c: "c \<in> set ?cum" and x: "x = percent_of c (Fin l)"
    by (auto simp add: reported_def split: if_splits)
  have "js_le (Fin 0) c" using is_double_zero _ c by (rule cumulative_ge) simp
  moreover have "js_le c (Fin l)" using assms(6) c by blast
  ultimately obtain y where "c = Fin y" "0 \<le> y" "y \<le> l" by (cases c) simp_all
  then show "\<exists>k. x = Fin (of_int k) \<and> 0 \<le> k \<and> k \<le> 100"
    using percent_of_range [OF assms(5), of y] by (simp add: x)
qed

theorem progress_within_0_100_witness:
  "(\<exists>k. Fin 25 = Fin (of_int k) \<and> 0 \<le> k \<and> k \<le> 100)
   \<and> progress_values (emitted p0 (snd (snd (download ''u'' (no_options\<lparr>progress := Some (\<lambda>x. returns)\<rparr>)
     \<lparr>pending = [], outcome = Response \<lparr>status = 200, content_type = None,
        content_length = Some ''8'', body = Some [Chunk [1, 2], Chunk [3, 4, 5, 6]]\<rparr>\<rparr>
     (new_downloader, p0)))))
     = [Fin 25, Fin 75]"
proof -
  let ?steps = "[Chunk [1, 2], Chunk [3, 4, 5, 6::byte]]"
  let ?r = "\<lparr>status = 200, content_type = None, content_length = Some ''8'', body = Some ?steps\<rparr>"
  let ?opts = "no_options\<lparr>progress := Some (\<lambda>x. returns)\<rparr>"
  let ?run = "download ''u'' ?opts \<lparr>pending = [], outcome = Response ?r\<rparr> (new_downloader, p0)"
  have h1: "?run = (fst ?run, snd ?run)" by simp
  have h2: "outcome \<lparr>pending = [], outcome = Response ?r\<rparr> = Response ?r" by simp
  have h3: "body ?r = Some ?steps" by simp
  have h4: "to_number (content_length ?r) = Fin 8" by (simp add: to_number_def parse_defs)
  have h5: "(0::rat) < 8" by simp
  have h6: "\<forall>x\<in>set (cumulative (Fin 0) (chunks_of ?steps)). js_le x (Fin 8)"
    by (simp add: array_length_def)
  have pv: "progress_values (emitted p0 (snd (snd ?run))) = [Fin 25, Fin 75]"
    by (simp add: run_defs parse_defs)
  then have "Fin 25 \<in> set (progress_values (emitted (snd (new_downloader, p0)) (snd (snd ?run))))"
    by simp
  with progress_within_0_100 [OF h1 h2 h3 h4 h5 h6]
  have "\<exists>k. Fin 25 = Fin (of_int k) \<and> 0 \<le> k \<and> k \<le> 100" by (rule bspec)
  then show ?thesis using pv by (rule conjI)
qed

text \<open>The claim C8 as stated fails: the header says 10 bytes, one chunk of 20 bytes arrives
  (as when the body is decompressed on the way), and the callback is called with 200.\<close>

theorem progress_above_100:
  "progress_values (emitted p0 (snd (snd (download ''u'' (no_options\<lparr>progress := Some (\<lambda>x. returns)\<rparr>)
     \<lparr>pending = [], outcome = Response \<lparr>status = 200, content_type = None,
        content_length = Some ''10'', body = Some [Chunk (replicate 20 0)]\<rparr>\<rparr>
     (new_downloader, p0)))))
   = [Fin 200]"
  by (simp add: run_defs parse_defs)

section \<open>The controller after a transfer\<close>

lemma p0_simps [simp]:
  "controllers p0 = []" "objects p0 = []" "trace p0 = []" "max_length p0 = 2 ^ 32"
  by (simp_all add: p0_def)

lemma quiet_no_Abort: "quiet es \<Longrightarrow> Abort c \<notin> set es"
  by (auto simp add: quiet_def list_all_iff)

lemma held_log: "held sig n dp \<Longrightarrow> Abort sig \<notin> set es \<Longrightarrow> held sig n (log es dp)"
  by (simp add: held_def)

lemma held_stop: "held sig n dp \<Longrightarrow> held sig n (stop dp)"
  using stop_fields(1) [of "fst dp" "snd dp"]
  by (auto simp add: held_def stop_events_def split: if_splits option.splits)

lemma held_released: "held sig n dp \<Longrightarrow> held sig n (fst dp, released dp)"
  by (auto simp add: held_def release_events_def split: option.splits)

lemma held_published: "held sig n dp \<Longrightarrow> held sig n (published ct vs dp)"
proof -
  assume h: "held sig n dp"
  have "controller (fst (published ct vs dp)) = controller (fst dp)"
    by (simp add: published_def)
  then show ?thesis
    using h by (auto simp add: held_def release_events_def split: option.splits)
qed

lemma held_begun: "held (length (controllers (snd dp))) (length (trace (snd dp))) (begun dp)"
  by (simp add: held_def)

lemma held_went:
  assumes "held sig n dp" "quiet es" "quiet (rest t)"
  shows "held sig n (went es t dp)"
proof (cases t)
  case None
  then show ?thesis using assms by (simp add: held_log quiet_no_Abort)
next
  case (Some es')
  then show ?thesis
    using assms by (simp add: went_def held_log held_stop quiet_no_Abort del: went_simps)
qed

lemma try_block_held:
  assumes "active sig dp" "try_block url opts net sig dp = (res, dp')" "held sig n dp"
  shows "held sig n dp'"
  using assms(1,2)
proof (cases rule: try_block_shapes)
  case (early es t e)
  then show ?thesis using assms(3) by (simp add: held_went del: went_simps)
next
  case (range es t r steps)
  have "held sig n (fst (went es t dp), released (went es t dp))"
    using assms(3) range(1,2) by (intro held_released held_went)
  then show ?thesis using range by simp
next
  case (published es t r steps)
  let ?Y = "published (content_type r) (chunks_of steps) (went es t dp)"
  let ?S = "Success (length (objects (snd dp))) (content_type r)"
  have Y: "held sig n ?Y" using assms(3) published(4,5) by (intro held_published held_went)
  have "dp' = ?Y \<or> dp' = log [?S] ?Y \<or> dp' = stop (log [?S] ?Y)"
    using published(8) by (auto split: option.splits if_splits)
  then show ?thesis using Y by (auto intro!: held_log held_stop)
qed

lemma catch_block_held:
  assumes "catch_block opts e dp = (res, dp')" "held sig n dp"
  shows "held sig n dp'"
proof -
  have "dp' = dp \<or> (\<exists>F. dp' = log [Failed (fst F) (snd F)] dp
      \<or> dp' = stop (log [Failed (fst F) (snd F)] dp))"
    using catch_block_cases [OF assms(1)]
    by (auto split: option.splits js_error.splits if_splits)
  then show ?thesis using assms(2) by (auto intro!: held_log held_stop)
qed

lemma download_held:
  assumes "download url opts net dp = (res, dp')"
  shows "held (length (controllers (snd dp))) (length (trace (snd dp))) dp'"
proof -
  let ?sig = "length (controllers (snd dp))"
  obtain tres Z where t: "try_block url opts net ?sig (begun dp) = (tres, Z)"
    by (cases "try_block url opts net ?sig (begun dp)")
  have Z: "held ?sig (length (trace (snd dp))) Z"
    using active_begun t held_begun by (rule try_block_held)
  show ?thesis
  proof (cases tres)
    case (Inr u)
    then show ?thesis using assms t Z by (simp add: download_eq)
  next
    case (Inl e)
    then have "catch_block opts e Z = (res, dp')" using assms t by (simp add: download_eq)
    then show ?thesis using Z by (rule catch_block_held)
  qed
qed

text \<open>
  C4, as the code has it. \<^verbatim>\<open>download\<close> makes a new \<^verbatim>\<open>AbortController\<close> at its start and
  keeps it in \<^verbatim>\<open>this.controller\<close>. Nothing in \<^verbatim>\<open>download\<close> clears the field: when the
  transfer has ended, in success or in failure, the field still holds that controller,
  unless \<^verbatim>\<open>stop()\<close> or \<^verbatim>\<open>cleanup()\<close> was called during the transfer; such a call has
  signalled the controller and set the field to null.
\<close>

theorem controller_after_transfer:
  assumes "download url opts net dp = (res, dp')"
  shows "controller (fst dp') =
           (if Abort (length (controllers (snd dp))) \<in> set (emitted (snd dp) (snd dp'))
            then None else Some (length (controllers (snd dp))))"
  using download_held [OF assms] by (simp add: held_def emitted_def)

theorem controller_after_transfer_witness:
  "controller (fst (snd (download ''u'' no_options
       \<lparr>pending = [CallStop], outcome = NetworkError ''offline''\<rparr> (new_downloader, p0)))) = None
   \<and> emitted p0 (snd (snd (download ''u'' no_options
       \<lparr>pending = [CallStop], outcome = NetworkError ''offline''\<rparr> (new_downloader, p0))))
     = [Fetch ''u'' [] 0, Abort 0]"
proof -
  let ?run = "download ''u'' no_options
       \<lparr>pending = [CallStop], outcome = NetworkError ''offline''\<rparr> (new_downloader, p0)"
  have e: "emitted p0 (snd (snd ?run)) = [Fetch ''u'' [] 0, Abort 0]"
    by (simp add: run_defs)
  have "?run = (fst ?run, snd ?run)" by simp
  from controller_after_transfer [OF this]
  have "controller (fst (snd ?run)) = None" by (simp add: e)
  then show ?thesis using e by (rule conjI)
qed

text \<open>The claim C4 as stated fails: after a transfer that succeeded, and after one that
  failed on a network error, the field is not null.\<close>

theorem controller_kept_after_transfer:
  "controller (fst (snd (download ''u'' no_options
       \<lparr>pending = [], outcome = Response \<lparr>status = 200, content_type = None,
          content_length = None, body = Some [Chunk [1, 2]]\<rparr>\<rparr> (new_downloader, p0)))) = Some 0
   \<and> fst (download ''u'' no_options
       \<lparr>pending = [], outcome = Response \<lparr>status = 200, content_type = None,
          content_length = None, body = Some [Chunk [1, 2]]\<rparr>\<rparr> (new_downloader, p0)) = Inr (Some 0)
   \<and> controller (fst (snd (download ''u'' no_options
       \<lparr>pending = [], outcome = NetworkError ''offline''\<rparr> (new_downloader, p0)))) = Some 0
   \<and> fst (download ''u'' no_options
       \<lparr>pending = [], outcome = NetworkError ''offline''\<rparr> (new_downloader, p0))
     = Inl (type_error ''offline'')"
  by (simp add: run_defs)

section \<open>The blob URL after a failed transfer\<close>

lemma quiet_no [simp]:
  "quiet es \<Longrightarrow> Abort c \<notin> set es"
  "quiet es \<Longrightarrow> Revoke u \<notin> set es"
  "quiet es \<Longrightarrow> Create u \<notin> set es"
  "quiet es \<Longrightarrow> Success u ct \<notin> set es"
  "quiet es \<Longrightarrow> Failed k m \<notin> set es"
  by (auto simp add: quiet_def list_all_iff)

lemma created_simps [simp]:
  "created [] = []"
  "created (es @ es') = created es @ created es'"
  "created (Started # es) = created es"
  "created (Fetch u h c # es) = created es"
  "created (Progress x # es) = created es"
  "created (Abort c # es) = created es"
  "created (Revoke n # es) = created es"
  "created (Create n # es) = n # created es"
  "created (Success n t # es) = created es"
  "created (Failed k m # es) = created es"
  by (simp_all add: created_def)

lemma failed_calls_simps [simp]:
  "failed_calls [] = []"
  "failed_calls (es @ es') = failed_calls es @ failed_calls es'"
  "failed_calls (Started # es) = failed_calls es"
  "failed_calls (Fetch u h c # es) = failed_calls es"
  "failed_calls (Progress x # es) = failed_calls es"
  "failed_calls (Abort c # es) = failed_calls es"
  "failed_calls (Revoke n # es) = failed_calls es"
  "failed_calls (Create n # es) = failed_calls es"
  "failed_calls (Success n t # es) = failed_calls es"
  "failed_calls (Failed k m # es) = (k, m) # failed_calls es"
  by (simp_all add: failed_calls_def)

lemma success_calls_simps [simp]:
  "success_calls [] = []"
  "success_calls (es @ es') = success_calls es @ success_calls es'"
  "success_calls (Started # es) = success_calls es"
  "success_calls (Fetch u h c # es) = success_calls es"
  "success_calls (Progress x # es) = success_calls es"
  "success_calls (Abort c # es) = success_calls es"
  "success_calls (Revoke n # es) = success_calls es"
  "success_calls (Create n # es) = success_calls es"
  "success_calls (Success n t # es) = (n, t) # success_calls es"
  "success_calls (Failed k m # es) = success_calls es"
  by (simp_all add: success_calls_def)

lemma calls_quiet [simp]:
  "quiet es \<Longrightarrow> created es = []"
  "quiet es \<Longrightarrow> failed_calls es = []"
  "quiet es \<Longrightarrow> success_calls es = []"
  by (induction es) (auto simp add: quiet_def split: event.splits)

lemma calls_stop_events [simp]:
  "created (stop_events dp) = []"
  "failed_calls (stop_events dp) = []"
  "success_calls (stop_events dp) = []"
  "created (release_events dp) = []"
  "failed_calls (release_events dp) = []"
  "success_calls (release_events dp) = []"
  by (simp_all add: stop_events_def release_events_def split: option.splits)

lemma objects_released_begun [simp]: "objects (released (begun dp)) = objects (released dp)"
  by (simp add: objects_released split: option.splits)

text \<open>What the \<^verbatim>\<open>catch\<close> block does to a state: at most one call of \<^verbatim>\<open>failed\<close>, and after it
  the events of a \<^verbatim>\<open>stop()\<close> if the callback made that call.\<close>

lemma catch_block_state:
  assumes "catch_block opts e0 Z = (res, dp')"
  shows "\<exists>pre s. trace (snd dp') = trace (snd Z) @ pre @ (if s then stop_events Z else [])
           \<and> (pre = [] \<or> (\<exists>k m. pre = [Failed k m]))
           \<and> controller (fst dp') = (if s then None else controller (fst Z))
           \<and> blobUrl (fst dp') = (if s then None else blobUrl (fst Z))
           \<and> objects (snd dp') = (if s then objects (released Z) else objects (snd Z))"
proof -
  have "dp' = Z \<or> (\<exists>k m. dp' = log [Failed k m] Z \<or> dp' = stop (log [Failed k m] Z))"
    using catch_block_cases [OF assms]
    by (auto split: option.splits js_error.splits if_splits)
  then show ?thesis
  proof (elim disjE exE)
    assume "dp' = Z"
    then show ?thesis by (intro exI [of _ "[]"] exI [of _ False]) simp
  next
    fix k m assume "dp' = log [Failed k m] Z"
    then show ?thesis by (intro exI [of _ "[Failed k m]"] exI [of _ False]) simp
  next
    fix k m assume "dp' = stop (log [Failed k m] Z)"
    then show ?thesis by (intro exI [of _ "[Failed k m]"] exI [of _ True]) simp
  qed
qed

lemma stop_events_begun:
  "stop_events (begun dp) = Abort (length (controllers (snd dp))) # release_events dp"
  by (simp add: stop_events_def release_events_def)

lemma list_update_last: "n = length xs \<Longrightarrow> (xs @ [x])[n := y] = xs @ [y]"
  by simp

lemmas state_defs = stop_events_def release_events_def objects_released emitted_def

lemmas error_defs = http_error_def type_error_def abort_error_def range_error_def

lemma after_first_eq:
  "after_first =
     (\<lparr>controller = Some 0, isPaused = False, blobUrl = Some 0\<rparr>,
      \<lparr>controllers = [False], objects = [Some \<lparr>bytes = [1, 2], btype = None\<rparr>],
         max_length = 2 ^ 32, trace = [Fetch ''u'' [] 0, Create 0]\<rparr>)"
  by (simp add: after_first_def served_def run_defs)

lemma show_nat_404: "show_nat 404 = ''404''"
  by (simp add: show_nat.simps)

text \<open>
  The blob URL of a session is one the platform has handed out. It is so for a new session,
  and \<^verbatim>\<open>stop()\<close>, \<^verbatim>\<open>cleanup()\<close> and \<^verbatim>\<open>download\<close> keep it so, however the transfer ends.
\<close>

lemma blob_url_issued_new:
  "\<forall>u. blobUrl (fst (new_downloader, p)) = Some u
         \<longrightarrow> u < length (objects (snd (new_downloader, p)))"
  by (simp add: new_downloader_def)

lemma blob_url_issued_stop:
  "\<forall>u. blobUrl (fst (stop dp)) = Some u \<longrightarrow> u < length (objects (snd (stop dp)))"
  "\<forall>u. blobUrl (fst (cleanup dp)) = Some u \<longrightarrow> u < length (objects (snd (cleanup dp)))"
  by (simp_all add: cleanup_eq_stop)

lemma blob_url_issued_download:
  assumes run: "download url opts net dp = (res, dp')"
    and wf: "\<forall>u. blobUrl (fst dp) = Some u \<longrightarrow> u < length (objects (snd dp))"
  shows "\<forall>u. blobUrl (fst dp') = Some u \<longrightarrow> u < length (objects (snd dp'))"
proof -
  let ?sig = "length (controllers (snd dp))"
  obtain tres Z where t: "try_block url opts net ?sig (begun dp) = (tres, Z)"
    by (cases "try_block url opts net ?sig (begun dp)")
  have Z: "\<forall>u. blobUrl (fst Z) = Some u \<longrightarrow> u < length (objects (snd Z))"
    using active_begun t
  proof (cases rule: try_block_shapes)
    case (early es t e)
    then show ?thesis using wf by (simp add: length_objects_released)
  next
    case (range es t r steps)
    then show ?thesis using wf by (simp add: length_objects_released)
  next
    case (published es t r steps)
    then show ?thesis by (auto simp add: length_objects_released split: option.splits if_splits)
  qed
  show ?thesis
  proof (cases tres)
    case (Inr v)
    then have "dp' = Z" using run t by (simp add: download_eq)
    then show ?thesis using Z by simp
  next
    case (Inl e0)
    then have "catch_block opts e0 Z = (res, dp')" using run t by (simp add: download_eq)
    from catch_block_state [OF this] Z show ?thesis
      by (auto simp add: length_objects_released split: if_splits)
  qed
qed

text \<open>
  C7, as the code has it. Take a transfer that fails, on a session whose blob URL, if it
  has one, was handed out by the platform. A new object URL is created only when the
  failure is a \<^verbatim>\<open>success\<close> callback that throws: the stream was complete, the blob URL of
  the transfer before is revoked, and the new URL stays in the field with the whole
  payload behind it, unless \<^verbatim>\<open>stop()\<close> or \<^verbatim>\<open>cleanup()\<close> was called after that and has
  revoked it. In every other failed transfer no object URL is created. Then the field is
  what it was, unless \<^verbatim>\<open>stop()\<close> or \<^verbatim>\<open>cleanup()\<close> was called during the transfer, which
  leaves it null; and the registered objects are what they were, unless the session's blob
  URL was revoked. It is revoked by such a call, as in a cancellation, and otherwise only by
  \<^verbatim>\<open>download\<close> itself when the stream was complete and the \<^verbatim>\<open>Uint8Array\<close> for the payload
  could not be allocated: then the field still holds the revoked URL.
\<close>

theorem failed_transfer_handle:
  assumes run: "download url opts net dp = (Inl e, dp')"
    and wf: "\<forall>u. blobUrl (fst dp) = Some u \<longrightarrow> u < length (objects (snd dp))"
  defines "E \<equiv> emitted (snd dp) (snd dp')"
    and "sig \<equiv> length (controllers (snd dp))"
    and "h \<equiv> length (objects (snd dp))"
    and "old \<equiv> (case blobUrl (fst dp) of
                   Some u \<Rightarrow> (objects (snd dp))[u := None]
                 | None \<Rightarrow> objects (snd dp))"
  shows "created E = (if success_calls E = [] then [] else [h])
       \<and> (success_calls E = [] \<longrightarrow>
            blobUrl (fst dp') = (if Abort sig \<in> set E then None else blobUrl (fst dp))
          \<and> objects (snd dp') = (if \<exists>u. Revoke u \<in> set E then old else objects (snd dp))
          \<and> ((\<exists>u. Revoke u \<in> set E) \<and> Abort sig \<notin> set E \<longrightarrow>
               (\<exists>r steps. outcome net = Response r \<and> ok r \<and> body r = Some steps
                  \<and> min (max_length (snd dp)) (2 ^ 53 - 1) < length (concat (chunks_of steps)))))
       \<and> (success_calls E \<noteq> [] \<longrightarrow>
            (\<exists>g r steps x. success opts = Some g \<and> outcome net = Response r \<and> ok r
               \<and> body r = Some steps \<and> snd (g h (content_type r)) = Some x
               \<and> blobUrl (fst dp') = (if Revoke h \<in> set E then None else Some h)
               \<and> objects (snd dp')
                   = old @ [if Revoke h \<in> set E then None
                            else Some \<lparr>bytes = concat (chunks_of steps), btype = content_type r\<rparr>]))"
proof -
  obtain tres Z where t: "try_block url opts net sig (begun dp) = (tres, Z)"
    by (cases "try_block url opts net sig (begun dp)")
  have "\<exists>e0. tres = Inl e0" using run t by (cases tres) (simp_all add: download_eq sig_def)
  then obtain e0 where e0: "tres = Inl e0" by blast
  then have c: "catch_block opts e0 Z = (Inl e, dp')" using run t by (simp add: download_eq sig_def)
  from catch_block_state [OF c] obtain pre s where
    tr: "trace (snd dp') = trace (snd Z) @ pre @ (if s then stop_events Z else [])"
    and pre: "pre = [] \<or> (\<exists>k m. pre = [Failed k m])"
    and b: "blobUrl (fst dp') = (if s then None else blobUrl (fst Z))"
    and o: "objects (snd dp') = (if s then objects (released Z) else objects (snd Z))"
    by blast
  have act: "active sig (begun dp)" unfolding sig_def by (rule active_begun)
  from act t show ?thesis
  proof (cases rule: try_block_shapes)
    case (early es t e1)
    show ?thesis
      using pre early(3,4) wf
      by (cases t; cases "blobUrl (fst dp)"; cases s)
         (auto simp add: E_def sig_def h_def old_def tr b o early(2) state_defs)
  next
    case (range es t r steps)
    show ?thesis
      using pre range(1,2,6-9) wf
      by (cases t; cases "blobUrl (fst dp)"; cases s)
         (auto simp add: E_def sig_def h_def old_def tr b o range(5) state_defs)
  next
    case (published es t r steps)
    let ?ct = "content_type r"
    let ?Y = "published ?ct (chunks_of steps) (went es t (begun dp))"
    let ?S = "Success h ?ct"
    obtain g where g: "success opts = Some g"
      using published(8) e0 by (cases "success opts") simp_all
    have Z: "Z = (if fst (g h ?ct) = [] then log [?S] ?Y else stop (log [?S] ?Y))"
      and x: "snd (g h ?ct) = Some e0"
      using published(8) e0 g by (simp_all add: h_def split: option.splits)
    show ?thesis
      using pre published(1-5) wf g x
      by (cases t; cases "blobUrl (fst dp)"; cases s; cases "fst (g h ?ct) = []")
         (auto simp add: E_def sig_def tr b o Z state_defs h_def old_def list_update_last)
  qed
qed

theorem failed_transfer_handle_witness:
  "blobUrl (fst (snd (download ''v''
      (no_options\<lparr>failed := Some (\<lambda>k m. ([], Some (JsError ''Error'' ''late'')))\<rparr>)
      not_found after_first))) = Some 0
   \<and> objects (snd (snd (download ''v''
      (no_options\<lparr>failed := Some (\<lambda>k m. ([], Some (JsError ''Error'' ''late'')))\<rparr>)
      not_found after_first)))
     = [Some \<lparr>bytes = [1, 2], btype = None\<rparr>]
   \<and> blobUrl (fst (snd (download ''v'' no_options
      (served [Chunk [3], External CallStop, ReadError abort_error]) after_first))) = None
   \<and> objects (snd (snd (download ''v'' no_options
      (served [Chunk [3], External CallStop, ReadError abort_error]) after_first))) = [None]"
proof -
  let ?opts = "no_options\<lparr>failed := Some (\<lambda>k m. ([], Some (JsError ''Error'' ''late'')))\<rparr>"
  let ?run = "download ''v'' ?opts not_found after_first"
  let ?net = "served [Chunk [3], External CallStop, ReadError abort_error]"
  let ?run2 = "download ''v'' no_options ?net after_first"
  have wf: "\<forall>u. blobUrl (fst after_first) = Some u \<longrightarrow> u < length (objects (snd after_first))"
    by (simp add: after_first_eq)
  have b: "blobUrl (fst after_first) = Some 0"
    "objects (snd after_first) = [Some \<lparr>bytes = [1, 2], btype = None\<rparr>]"
    "length (controllers (snd after_first)) = 1"
    by (simp_all add: after_first_eq)
  have "fst ?run = Inl (JsError ''Error'' ''late'')"
    by (simp add: after_first_eq run_defs error_defs not_found_def)
  then have h1: "?run = (Inl (JsError ''Error'' ''late''), snd ?run)" by (simp add: prod_eq_iff)
  have em: "emitted (snd after_first) (snd (snd ?run))
      = [Fetch ''v'' [] 1, Failed ''ERROR'' ''HTTP error! status: 404'']"
    by (simp add: after_first_eq run_defs error_defs not_found_def show_nat_404)
  have "fst ?run2 = Inl abort_error"
    by (simp add: after_first_eq run_defs served_def)
  then have h2: "?run2 = (Inl abort_error, snd ?run2)" by (simp add: prod_eq_iff)
  have em2: "emitted (snd after_first) (snd (snd ?run2)) = [Fetch ''v'' [] 1, Abort 1, Revoke 0]"
    by (simp add: after_first_eq run_defs served_def)
  from failed_transfer_handle [OF h1 wf, THEN conjunct2, THEN conjunct1]
  have 1: "blobUrl (fst (snd ?run)) = Some 0
      \<and> objects (snd (snd ?run)) = [Some \<lparr>bytes = [1, 2], btype = None\<rparr>]"
    by (simp add: em b)
  from failed_transfer_handle [OF h2 wf, THEN conjunct2, THEN conjunct1]
  have 2: "blobUrl (fst (snd ?run2)) = None \<and> objects (snd (snd ?run2)) = [None]"
    by (simp add: em2 b)
  from 1 2 show ?thesis by simp
qed

text \<open>
  The claim C7 as stated fails in three ways. A transfer that is cancelled by \<^verbatim>\<open>stop()\<close>
  (the platform rejects the pending read with its \<^verbatim>\<open>AbortError\<close>) fails, and \<^verbatim>\<open>stop()\<close> has
  revoked the blob URL of the transfer before and set the field to null. A transfer whose
  \<^verbatim>\<open>Uint8Array\<close> cannot be allocated fails after \<^verbatim>\<open>download\<close> itself has revoked the blob URL
  of the transfer before: the field still holds that URL, which resolves to nothing. And a
  transfer whose \<^verbatim>\<open>success\<close> callback throws fails with a new blob URL created and kept in
  the field.
\<close>

theorem failed_transfer_changes_handle:
  "blobUrl (fst after_first) = Some 0
   \<and> resolve 0 (snd after_first) = Some \<lparr>bytes = [1, 2], btype = None\<rparr>
   \<and> fst (download ''v'' no_options
        (served [Chunk [3], External CallStop, ReadError abort_error]) after_first)
     = Inl abort_error
   \<and> blobUrl (fst (snd (download ''v'' no_options
        (served [Chunk [3], External CallStop, ReadError abort_error]) after_first))) = None
   \<and> resolve 0 (snd (snd (download ''v'' no_options
        (served [Chunk [3], External CallStop, ReadError abort_error]) after_first))) = None
   \<and> fst (download ''v'' no_options (served [Chunk [3, 4]])
        (fst after_first, (snd after_first)\<lparr>max_length := 1\<rparr>)) = Inl range_error
   \<and> blobUrl (fst (snd (download ''v'' no_options (served [Chunk [3, 4]])
        (fst after_first, (snd after_first)\<lparr>max_length := 1\<rparr>)))) = Some 0
   \<and> resolve 0 (snd (snd (download ''v'' no_options (served [Chunk [3, 4]])
        (fst after_first, (snd after_first)\<lparr>max_length := 1\<rparr>)))) = None
   \<and> fst (download ''v''
        (no_options\<lparr>success := Some (\<lambda>u t. ([], Some (JsError ''Error'' ''boom'')))\<rparr>)
        (served [Chunk [3]]) after_first) = Inl (JsError ''Error'' ''boom'')
   \<and> blobUrl (fst (snd (download ''v''
        (no_options\<lparr>success := Some (\<lambda>u t. ([], Some (JsError ''Error'' ''boom'')))\<rparr>)
        (served [Chunk [3]]) after_first))) = Some 1
   \<and> resolve 1 (snd (snd (download ''v''
        (no_options\<lparr>success := Some (\<lambda>u t. ([], Some (JsError ''Error'' ''boom'')))\<rparr>)
        (served [Chunk [3]]) after_first))) = Some \<lparr>bytes = [3], btype = None\<rparr>"
  by (simp add: after_first_eq run_defs served_def resolve_def)

section \<open>Reports of failure\<close>

lemma plain_simps [simp]:
  "plain []"
  "plain (stop_events dp)"
  "plain (release_events dp)"
  by (simp_all add: plain_def stop_events_def release_events_def split: option.splits)

lemma try_block_calls:
  assumes "active sig dp" "try_block url opts net sig dp = (tres, Z)"
  shows "\<exists>es. trace (snd Z) = trace (snd dp) @ es \<and> failed_calls es = []
           \<and> length (success_calls es) \<le> 1
           \<and> (success_calls es \<noteq> [] \<and> isl tres \<longrightarrow>
                (\<exists>g u ct x. success opts = Some g \<and> success_calls es = [(u, ct)]
                   \<and> snd (g u ct) = Some x \<and> tres = Inl x))"
  using assms
proof (cases rule: try_block_shapes)
  case (early es t e)
  then show ?thesis by (cases t) simp_all
next
  case (range es t r steps)
  then show ?thesis by (cases t) simp_all
next
  case (published es t r steps)
  then show ?thesis
    by (cases t; cases "success opts") (auto split: option.splits if_splits)
qed

lemma report_returns:
  assumes "\<forall>f x. progress opts = Some f \<longrightarrow> snd (f x) = None"
  shows "fst (report opts cl r dp) = None"
  using assms by (simp add: report_def invoke_def Let_def split: option.splits)

lemma read_loop_rejection:
  assumes "\<forall>f x. progress opts = Some f \<longrightarrow> snd (f x) = None" "rejection steps = Some e"
  shows "fst (read_loop opts cl steps acc dp) = Inl e"
  using assms(2)
proof (induction steps arbitrary: acc dp)
  case Nil
  then show ?case by simp
next
  case (Cons s steps)
  show ?case
  proof (cases s)
    case (Chunk v)
    obtain thr X where r: "report opts cl (js_add (snd acc) (array_length v)) dp = (thr, X)"
      by (cases "report opts cl (js_add (snd acc) (array_length v)) dp")
    then have "thr = None"
      using report_returns [OF assms(1), of cl "js_add (snd acc) (array_length v)" dp] by simp
    then show ?thesis using Cons Chunk r by (simp add: Let_def)
  qed (use Cons in simp_all)
qed

lemma fetch_unfold:
  "fetch url hs sig net X =
     (if aborted sig (snd X) then (Inl abort_error, log [Fetch url hs sig] X)
      else if pending net = []
        then (case outcome net of NetworkError m \<Rightarrow> Inl (type_error m) | Response r \<Rightarrow> Inr r,
              log [Fetch url hs sig] X)
        else if aborted sig (snd (stop (log [Fetch url hs sig] X)))
          then (Inl abort_error, stop (log [Fetch url hs sig] X))
          else (case outcome net of NetworkError m \<Rightarrow> Inl (type_error m) | Response r \<Rightarrow> Inr r,
                stop (log [Fetch url hs sig] X)))"
proof -
  have l: "(fst X, emit (Fetch url hs sig) (snd X)) = log [Fetch url hs sig] X" by (rule emit_log)
  show ?thesis
    by (simp add: fetch_def l Let_def fold_run_call split: fetch_outcome.splits)
qed

lemma aborted_stop_went:
  assumes "active sig dp"
  shows "aborted sig (snd (stop (log ps (went es t dp))))"
proof -
  from went_step [OF assms, of "log ps (went es t dp)" ps es t] obtain es1 t1 where
    "log ps (went es t dp) = went es1 t1 dp" by blast
  then have "stop (log ps (went es t dp)) = went es1 (Some (rest t1)) dp"
    using went_stop [OF assms] by simp
  then show ?thesis using aborted_went [OF assms, of es1 "Some (rest t1)"] by simp
qed

lemma fetch_result:
  assumes "active sig dp"
  shows "fst (fetch url hs sig net (went es t dp))
       = (if t \<noteq> None \<or> pending net \<noteq> [] then Inl abort_error
          else case outcome net of NetworkError m \<Rightarrow> Inl (type_error m) | Response r \<Rightarrow> Inr r)"
  unfolding fetch_unfold
  using aborted_went [OF assms, of es t] aborted_stop_went [OF assms, of "[Fetch url hs sig]" es t]
  by (cases t) (simp_all del: went_simps went_None)

lemma started_returns:
  assumes "\<forall>b. started opts = Some b \<longrightarrow> snd b = None"
  shows "(case started opts of Some b \<Rightarrow> invoke b (fst dp, emit Started (snd dp)) | None \<Rightarrow> (None, dp))
       = (None, went (case started opts of Some b \<Rightarrow> [Started] | None \<Rightarrow> [])
                  (if \<exists>b. started opts = Some b \<and> fst b \<noteq> [] then Some [] else None) dp)"
  using assms by (cases "started opts") (simp_all add: invoke_eq emit_log went_def)

lemma try_block_paths:
  assumes act: "active sig dp" and st: "\<forall>b. started opts = Some b \<longrightarrow> snd b = None"
  shows "(\<exists>b. started opts = Some b \<and> fst b \<noteq> []) \<or> pending net \<noteq> []
           \<Longrightarrow> fst (try_block url opts net sig dp) = Inl abort_error"
    and "(\<forall>b. started opts = Some b \<longrightarrow> fst b = []) \<Longrightarrow> pending net = []
           \<Longrightarrow> outcome net = NetworkError m
           \<Longrightarrow> fst (try_block url opts net sig dp) = Inl (type_error m)"
    and "(\<forall>b. started opts = Some b \<longrightarrow> fst b = []) \<Longrightarrow> pending net = []
           \<Longrightarrow> outcome net = Response r \<Longrightarrow> \<not> ok r
           \<Longrightarrow> fst (try_block url opts net sig dp) = Inl (http_error (status r))"
    and "(\<forall>b. started opts = Some b \<longrightarrow> fst b = []) \<Longrightarrow> pending net = []
           \<Longrightarrow> outcome net = Response r \<Longrightarrow> ok r \<Longrightarrow> body r = Some steps
           \<Longrightarrow> \<forall>f x. progress opts = Some f \<longrightarrow> snd (f x) = None \<Longrightarrow> rejection steps = Some e
           \<Longrightarrow> fst (try_block url opts net sig dp) = Inl e"
proof -
  let ?hs = "case headers opts of Some h \<Rightarrow> h | None \<Rightarrow> []"
  let ?es = "case started opts of Some b \<Rightarrow> [Started] | None \<Rightarrow> []"
  let ?t = "if \<exists>b. started opts = Some b \<and> fst b \<noteq> [] then Some ([] :: event list) else None"
  let ?X = "went ?es ?t dp"
  obtain fr X1 where fe: "fetch url ?hs sig net ?X = (fr, X1)"
    by (cases "fetch url ?hs sig net ?X")
  have "fr = fst (fetch url ?hs sig net ?X)" using fe by simp
  also have "\<dots> = (if ?t \<noteq> None \<or> pending net \<noteq> [] then Inl abort_error
          else case outcome net of NetworkError m \<Rightarrow> Inl (type_error m) | Response r \<Rightarrow> Inr r)"
    by (rule fetch_result [OF act])
  finally have fr: "fr = (if ?t \<noteq> None \<or> pending net \<noteq> [] then Inl abort_error
          else case outcome net of NetworkError m \<Rightarrow> Inl (type_error m) | Response r \<Rightarrow> Inr r)" .
  have T: "try_block url opts net sig dp =
      (case fr of
         Inl e \<Rightarrow> (Inl e, X1)
       | Inr response \<Rightarrow>
           if \<not> ok response then (Inl (http_error (status response)), X1)
           else (case body response of
                   None \<Rightarrow> (Inl (type_error ''response.body is null''), X1)
                 | Some reader \<Rightarrow>
                     (case read_loop opts (to_number (content_length response)) reader ([], Fin 0) X1 of
                        (Inl e, dp) \<Rightarrow> (Inl e, dp)
                      | (Inr acc, dp) \<Rightarrow> finish opts (content_type response) acc dp)))"
    unfolding try_block_def Let_def started_returns [OF st] prod.case option.case fe
    by (cases fr) simp_all
  show "fst (try_block url opts net sig dp) = Inl abort_error"
    if "(\<exists>b. started opts = Some b \<and> fst b \<noteq> []) \<or> pending net \<noteq> []"
    using that by (auto simp add: T fr)
  show "fst (try_block url opts net sig dp) = Inl (type_error m)"
    if "\<forall>b. started opts = Some b \<longrightarrow> fst b = []" "pending net = []" "outcome net = NetworkError m"
    using that by (auto simp add: T fr)
  show "fst (try_block url opts net sig dp) = Inl (http_error (status r))"
    if "\<forall>b. started opts = Some b \<longrightarrow> fst b = []" "pending net = []" "outcome net = Response r"
      "\<not> ok r"
    using that by (auto simp add: T fr)
  show "fst (try_block url opts net sig dp) = Inl e"
    if "\<forall>b. started opts = Some b \<longrightarrow> fst b = []" "pending net = []" "outcome net = Response r"
      "ok r" "body r = Some steps" "\<forall>f x. progress opts = Some f \<longrightarrow> snd (f x) = None"
      "rejection steps = Some e"
  proof -
    obtain lr X2 where l: "read_loop opts (to_number (content_length r)) steps ([], Fin 0) X1 = (lr, X2)"
      by (cases "read_loop opts (to_number (content_length r)) steps ([], Fin 0) X1")
    then have "lr = Inl e"
      using read_loop_rejection [OF that(6,7), of "to_number (content_length r)" "([], Fin 0)" X1]
      by simp
    then show ?thesis using that(1-5) l by (auto simp add: T fr)
  qed
qed

text \<open>
  C3, as the code has it. Let \<open>T\<close> be what the \<^verbatim>\<open>try\<close> block of \<^verbatim>\<open>download\<close> ends with: the
  value returned, or the value thrown and caught. When it returns, \<^verbatim>\<open>failed\<close> is not called
  and the transfer resolves to that value. When it throws an error object and there is a
  \<^verbatim>\<open>failed\<close> callback, that callback is called exactly once, after every other callback, with
  \<^verbatim>\<open>'ABORTED'\<close> and \<^verbatim>\<open>'Download was stopped'\<close> if the name of the error is \<^verbatim>\<open>AbortError\<close> and with
  \<^verbatim>\<open>'ERROR'\<close> and the message of the error otherwise; then the transfer is rejected with the
  error caught, unless \<^verbatim>\<open>failed\<close> itself throws: then with what \<^verbatim>\<open>failed\<close> threw. Without a
  \<^verbatim>\<open>failed\<close> callback the transfer is rejected with the value caught; when that value is
  \<^verbatim>\<open>null\<close> or \<^verbatim>\<open>undefined\<close>, \<^verbatim>\<open>failed\<close> is not called and the transfer is rejected with a
  \<^verbatim>\<open>TypeError\<close>. The \<^verbatim>\<open>success\<close> callback is called at most once, and \<^verbatim>\<open>success\<close> and \<^verbatim>\<open>failed\<close>
  are both called only when \<^verbatim>\<open>success\<close> threw.

  What is caught on the paths of the claim, when the \<^verbatim>\<open>started\<close> callback does not throw: a
  \<^verbatim>\<open>stop()\<close> or \<^verbatim>\<open>cleanup()\<close> before the response is there makes \<^verbatim>\<open>fetch\<close> reject with the
  \<^verbatim>\<open>AbortError\<close>. When nothing is called before the response: a network error is caught as
  the \<^verbatim>\<open>TypeError\<close> of \<^verbatim>\<open>fetch\<close>, a status that is not ok as the \<^verbatim>\<open>Error\<close> with the message
  \<^verbatim>\<open>HTTP error! status: \<close>\<open>n\<close>, and, with a \<^verbatim>\<open>progress\<close> callback that does not throw, a read
  that the platform rejects as the error of that rejection (the \<^verbatim>\<open>AbortError\<close> after a
  cancellation, on a platform that follows the Fetch standard).
\<close>

theorem failure_is_reported:
  assumes run: "download url opts net dp = (res, dp')"
  defines "E \<equiv> emitted (snd dp) (snd dp')"
    and "T \<equiv> fst (try_block url opts net (length (controllers (snd dp))) (begun dp))"
  shows
    "(case T of
        Inr v \<Rightarrow> res = Inr v \<and> failed_calls E = []
      | Inl e0 \<Rightarrow>
          (case failed opts of
             None \<Rightarrow> res = Inl e0 \<and> failed_calls E = []
           | Some f \<Rightarrow>
               (case e0 of
                  Nullish \<Rightarrow> res = Inl null_error \<and> failed_calls E = []
                | JsError n m \<Rightarrow>
                    failed_calls E = [kind_of n m]
                  \<and> (\<exists>pre post. E = pre @ Failed (fst (kind_of n m)) (snd (kind_of n m)) # post
                         \<and> plain post)
                  \<and> res = Inl (case snd (f (fst (kind_of n m)) (snd (kind_of n m))) of
                                  Some e' \<Rightarrow> e' | None \<Rightarrow> e0))))
   \<and> length (success_calls E) \<le> 1
   \<and> (success_calls E \<noteq> [] \<and> isl T \<longrightarrow>
        (\<exists>g u ct x. success opts = Some g \<and> success_calls E = [(u, ct)]
           \<and> snd (g u ct) = Some x \<and> T = Inl x))
   \<and> ((\<forall>b. started opts = Some b \<longrightarrow> snd b = None)
        \<and> ((\<exists>b. started opts = Some b \<and> fst b \<noteq> []) \<or> pending net \<noteq> [])
        \<longrightarrow> T = Inl abort_error)
   \<and> ((\<forall>b. started opts = Some b \<longrightarrow> b = ([], None)) \<and> pending net = [] \<longrightarrow>
        (\<forall>m. outcome net = NetworkError m \<longrightarrow> T = Inl (type_error m))
      \<and> (\<forall>r. outcome net = Response r \<and> \<not> ok r \<longrightarrow> T = Inl (http_error (status r)))
      \<and> (\<forall>r steps x. outcome net = Response r \<and> ok r \<and> body r = Some steps
            \<and> (\<forall>f v. progress opts = Some f \<longrightarrow> snd (f v) = None) \<and> rejection steps = Some x
            \<longrightarrow> T = Inl x))"
proof -
  let ?sig = "length (controllers (snd dp))"
  obtain tres Z where t: "try_block url opts net ?sig (begun dp) = (tres, Z)"
    by (cases "try_block url opts net ?sig (begun dp)")
  then have T: "T = tres" by (simp add: T_def)
  from try_block_calls [OF active_begun t] obtain es where
    es: "trace (snd Z) = trace (snd dp) @ es" "failed_calls es = []"
      "length (success_calls es) \<le> 1"
      "success_calls es \<noteq> [] \<and> isl tres \<longrightarrow>
         (\<exists>g u ct x. success opts = Some g \<and> success_calls es = [(u, ct)]
            \<and> snd (g u ct) = Some x \<and> tres = Inl x)"
    by auto
  have main: "(case tres of
        Inr v \<Rightarrow> res = Inr v \<and> failed_calls E = []
      | Inl e0 \<Rightarrow>
          (case failed opts of
             None \<Rightarrow> res = Inl e0 \<and> failed_calls E = []
           | Some f \<Rightarrow>
               (case e0 of
                  Nullish \<Rightarrow> res = Inl null_error \<and> failed_calls E = []
                | JsError n m \<Rightarrow>
                    failed_calls E = [kind_of n m]
                  \<and> (\<exists>pre post. E = pre @ Failed (fst (kind_of n m)) (snd (kind_of n m)) # post
                         \<and> plain post)
                  \<and> res = Inl (case snd (f (fst (kind_of n m)) (snd (kind_of n m))) of
                                  Some e' \<Rightarrow> e' | None \<Rightarrow> e0))))
      \<and> success_calls E = success_calls es"
  proof (cases tres)
    case (Inr v)
    then have "res = Inr v" "dp' = Z" using run t by (simp_all add: download_eq)
    then show ?thesis using Inr es(1,2) by (simp add: E_def)
  next
    case (Inl e0)
    then have c: "catch_block opts e0 Z = (res, dp')" using run t by (simp add: download_eq)
    show ?thesis
    proof (cases "failed opts")
      case None
      then show ?thesis using catch_block_cases [OF c] Inl es(1,2) by (simp add: E_def)
    next
      case (Some f)
      show ?thesis
      proof (cases e0)
        case Nullish
        then show ?thesis using catch_block_cases [OF c] Inl Some es(1,2) by (simp add: E_def)
      next
        case (JsError n m)
        let ?F = "Failed (fst (kind_of n m)) (snd (kind_of n m))"
        have r: "res = Inl (case snd (f (fst (kind_of n m)) (snd (kind_of n m))) of
                                  Some e' \<Rightarrow> e' | None \<Rightarrow> e0)"
          and d: "dp' = log [?F] Z \<or> dp' = stop (log [?F] Z)"
          using catch_block_cases [OF c] Some JsError by (simp_all split: if_splits)
        from d obtain post where post: "E = es @ ?F # post" "plain post"
            "failed_calls post = []" "success_calls post = []"
        proof
          assume "dp' = log [?F] Z"
          then show ?thesis using es(1) by (intro that [of "[]"]) (simp_all add: E_def)
        next
          assume "dp' = stop (log [?F] Z)"
          then show ?thesis using es(1) by (intro that [of "stop_events Z"]) (simp_all add: E_def)
        qed
        have "\<exists>pre post. E = pre @ ?F # post \<and> plain post" using post(1,2) by blast
        then show ?thesis using Inl Some JsError r post es(2) by (simp split: option.splits)
      qed
    qed
  qed
  have act: "active ?sig (begun dp)" by (rule active_begun)
  have p1: "T = Inl abort_error"
    if "\<forall>b. started opts = Some b \<longrightarrow> snd b = None"
      "(\<exists>b. started opts = Some b \<and> fst b \<noteq> []) \<or> pending net \<noteq> []"
    unfolding T_def using act that by (rule try_block_paths(1))
  have calm: "\<forall>b. started opts = Some b \<longrightarrow> snd b = None" "\<forall>b. started opts = Some b \<longrightarrow> fst b = []"
    if "\<forall>b. started opts = Some b \<longrightarrow> b = ([], None)"
    using that by auto
  have p2: "T = Inl (type_error m)"
    if "\<forall>b. started opts = Some b \<longrightarrow> b = ([], None)" "pending net = []"
      "outcome net = NetworkError m" for m
    unfolding T_def using act calm [OF that(1)] that(2,3) by (rule try_block_paths(2))
  have p3: "T = Inl (http_error (status r))"
    if "\<forall>b. started opts = Some b \<longrightarrow> b = ([], None)" "pending net = []"
      "outcome net = Response r" "\<not> ok r" for r
    unfolding T_def using act calm [OF that(1)] that(2-4) by (rule try_block_paths(3))
  have p4: "T = Inl x"
    if "\<forall>b. started opts = Some b \<longrightarrow> b = ([], None)" "pending net = []"
      "outcome net = Response r" "ok r" "body r = Some steps"
      "\<forall>f v. progress opts = Some f \<longrightarrow> snd (f v) = None" "rejection steps = Some x" for r steps x
    unfolding T_def using act calm [OF that(1)] that(2-7) by (rule try_block_paths(4))
  from main have m1: "case T of
        Inr v \<Rightarrow> res = Inr v \<and> failed_calls E = []
      | Inl e0 \<Rightarrow>
          (case failed opts of
             None \<Rightarrow> res = Inl e0 \<and> failed_calls E = []
           | Some f \<Rightarrow>
               (case e0 of
                  Nullish \<Rightarrow> res = Inl null_error \<and> failed_calls E = []
                | JsError n m \<Rightarrow>
                    failed_calls E = [kind_of n m]
                  \<and> (\<exists>pre post. E = pre @ Failed (fst (kind_of n m)) (snd (kind_of n m)) # post
                         \<and> plain post)
                  \<and> res = Inl (case snd (f (fst (kind_of n m)) (snd (kind_of n m))) of
                                  Some e' \<Rightarrow> e' | None \<Rightarrow> e0)))"
    and sc: "success_calls E = success_calls es" by (simp_all add: T)
  have m2: "length (success_calls E) \<le> 1" using es(3) by (simp add: sc)
  have m3: "success_calls E \<noteq> [] \<and> isl T \<longrightarrow>
        (\<exists>g u ct x. success opts = Some g \<and> success_calls E = [(u, ct)]
           \<and> snd (g u ct) = Some x \<and> T = Inl x)"
    using es(4) by (simp add: sc T)
  show ?thesis
    using m1 m2 m3 p1 p2 p3 p4 by blast
qed

theorem failure_is_reported_witness:
  "fst (download ''u'' (no_options\<lparr>failed := Some (\<lambda>k m. returns)\<rparr>)
        (served [Chunk [1], External CallStop, ReadError abort_error]) (new_downloader, p0))
     = Inl abort_error
   \<and> failed_calls (emitted p0 (snd (snd (download ''u'' (no_options\<lparr>failed := Some (\<lambda>k m. returns)\<rparr>)
        (served [Chunk [1], External CallStop, ReadError abort_error]) (new_downloader, p0)))))
     = [(''ABORTED'', ''Download was stopped'')]
   \<and> length (success_calls (emitted p0 (snd (snd (download ''u''
        (no_options\<lparr>failed := Some (\<lambda>k m. returns)\<rparr>)
        (served [Chunk [1], External CallStop, ReadError abort_error]) (new_downloader, p0)))))) \<le> 1"
proof -
  let ?opts = "no_options\<lparr>failed := Some (\<lambda>k m. returns)\<rparr>"
  let ?steps = "[Chunk [1], External CallStop, ReadError abort_error]"
  let ?net = "served ?steps"
  let ?run = "download ''u'' ?opts ?net (new_downloader, p0)"
  let ?T = "fst (try_block ''u'' ?opts ?net (length (controllers (snd (new_downloader, p0))))
                  (begun (new_downloader, p0)))"
  have h1: "?run = (fst ?run, snd ?run)" by simp
  note all = failure_is_reported [OF h1]
  have calm: "(\<forall>b. started ?opts = Some b \<longrightarrow> b = ([], None)) \<and> pending ?net = []"
    by (simp add: no_options_def served_def)
  have path: "outcome ?net = Response \<lparr>status = 200, content_type = None, content_length = None,
                                      body = Some ?steps\<rparr>
      \<and> ok \<lparr>status = 200, content_type = None, content_length = None, body = Some ?steps\<rparr>
      \<and> body \<lparr>status = 200, content_type = None, content_length = None, body = Some ?steps\<rparr>
          = Some ?steps
      \<and> (\<forall>f v. progress ?opts = Some f \<longrightarrow> snd (f v) = None)
      \<and> rejection ?steps = Some abort_error"
    by (simp add: no_options_def served_def ok_def)
  from all [THEN conjunct2, THEN conjunct2, THEN conjunct2, THEN conjunct2, THEN mp, OF calm,
      THEN conjunct2, THEN conjunct2, THEN spec, THEN spec, THEN spec, THEN mp, OF path]
  have T: "?T = Inl abort_error" .
  have f: "failed ?opts = Some (\<lambda>k m. returns)" by (simp add: no_options_def)
  note c1 = all [THEN conjunct1, unfolded T sum.case f option.case]
  have "fst ?run = Inl abort_error
     \<and> failed_calls (emitted p0 (snd (snd ?run))) = [(''ABORTED'', ''Download was stopped'')]"
    using c1 by (simp add: abort_error_def kind_of_def returns_def)
  moreover from all [THEN conjunct2, THEN conjunct1]
  have "length (success_calls (emitted p0 (snd (snd ?run)))) \<le> 1" by simp
  ultimately show ?thesis by simp
qed

text \<open>
  The claim C3 as stated fails in four ways. A \<^verbatim>\<open>success\<close> callback that throws is followed
  by a call of \<^verbatim>\<open>failed\<close>: both fire in one transfer. The kind follows the name of the value
  caught: a \<^verbatim>\<open>started\<close> callback that throws an error named \<^verbatim>\<open>AbortError\<close> gets \<^verbatim>\<open>ABORTED\<close>
  though nothing was cancelled, and a \<^verbatim>\<open>progress\<close> callback that calls \<^verbatim>\<open>this.stop()\<close> and
  then throws an \<^verbatim>\<open>Error\<close> gets \<^verbatim>\<open>ERROR\<close> though the transfer was cancelled. When \<^verbatim>\<open>failed\<close>
  itself throws, the transfer is rejected with what \<^verbatim>\<open>failed\<close> threw, not with the failure.
  And when the value caught is \<^verbatim>\<open>null\<close>, \<^verbatim>\<open>failed\<close> is not called at all.
\<close>

theorem failure_reports_differ:
  "success_calls (emitted p0 (snd (snd (download ''u''
      (no_options\<lparr>success := Some (\<lambda>u t. ([], Some (JsError ''Error'' ''boom''))),
                  failed := Some (\<lambda>k m. returns)\<rparr>)
      (served [Chunk [1, 2]]) (new_downloader, p0))))) = [(0, None)]
   \<and> failed_calls (emitted p0 (snd (snd (download ''u''
      (no_options\<lparr>success := Some (\<lambda>u t. ([], Some (JsError ''Error'' ''boom''))),
                  failed := Some (\<lambda>k m. returns)\<rparr>)
      (served [Chunk [1, 2]]) (new_downloader, p0))))) = [(''ERROR'', ''boom'')]
   \<and> emitted p0 (snd (snd (download ''u''
      (no_options\<lparr>started := Some ([], Some (JsError ''AbortError'' ''mine'')),
                  failed := Some (\<lambda>k m. returns)\<rparr>)
      (served [Chunk [1, 2]]) (new_downloader, p0))))
     = [Started, Failed ''ABORTED'' ''Download was stopped'']
   \<and> emitted p0 (snd (snd (download ''u''
      (no_options\<lparr>progress := Some (\<lambda>x. ([CallStop], Some (JsError ''Error'' ''x''))),
                  failed := Some (\<lambda>k m. returns)\<rparr>)
      \<lparr>pending = [], outcome = Response \<lparr>status = 200, content_type = None,
         content_length = Some ''2'', body = Some [Chunk [1, 2]]\<rparr>\<rparr> (new_downloader, p0))))
     = [Fetch ''u'' [] 0, Progress (Fin 100), Abort 0, Failed ''ERROR'' ''x'']
   \<and> fst (download ''u''
      (no_options\<lparr>failed := Some (\<lambda>k m. ([], Some (JsError ''Error'' ''late'')))\<rparr>)
      not_found (new_downloader, p0)) = Inl (JsError ''Error'' ''late'')
   \<and> failed_calls (emitted p0 (snd (snd (download ''u''
      (no_options\<lparr>failed := Some (\<lambda>k m. ([], Some (JsError ''Error'' ''late'')))\<rparr>)
      not_found (new_downloader, p0))))) = [(''ERROR'', ''HTTP error! status: 404'')]
   \<and> failed_calls (emitted p0 (snd (snd (download ''u''
      (no_options\<lparr>started := Some ([], Some Nullish), failed := Some (\<lambda>k m. returns)\<rparr>)
      (served [Chunk [1, 2]]) (new_downloader, p0))))) = []
   \<and> fst (download ''u''
      (no_options\<lparr>started := Some ([], Some Nullish), failed := Some (\<lambda>k m. returns)\<rparr>)
      (served [Chunk [1, 2]]) (new_downloader, p0)) = Inl null_error"
  by (simp add: run_defs error_defs parse_defs served_def not_found_def show_nat_404)

section \<open>The payload of a successful transfer\<close>

text \<open>
  What a transfer that succeeds does, whatever its callbacks do. Exactly one object URL is
  created, one that was never handed out before, and the blob URL the session held is
  revoked before that. The blob behind the new URL holds the chunks of the body,
  concatenated in the order of their arrival; its length is the sum of their lengths. The
  \<^verbatim>\<open>success\<close> callback, if there is one, is called once, with the new URL. The value
  returned is the \<^verbatim>\<open>blobUrl\<close> field as it is after that call: the new URL, unless the
  callback has called \<^verbatim>\<open>stop()\<close> or \<^verbatim>\<open>cleanup()\<close>, which revokes the new URL and leaves null.
\<close>

lemma successful_transfer_payload:
  assumes run: "download url opts net dp = (Inr v, dp')"
    and wf: "\<forall>u. blobUrl (fst dp) = Some u \<longrightarrow> u < length (objects (snd dp))"
  defines "E \<equiv> emitted (snd dp) (snd dp')"
    and "h \<equiv> length (objects (snd dp))"
    and "old \<equiv> (case blobUrl (fst dp) of
                   Some u \<Rightarrow> (objects (snd dp))[u := None]
                 | None \<Rightarrow> objects (snd dp))"
  shows "\<exists>r steps. outcome net = Response r \<and> ok r \<and> body r = Some steps
           \<and> created E = [h] \<and> resolve h (snd dp) = None
           \<and> (\<forall>u. blobUrl (fst dp) = Some u \<longrightarrow>
                 (\<exists>pre post. E = pre @ Create h # post \<and> Revoke u \<in> set pre))
           \<and> success_calls E = (case success opts of None \<Rightarrow> [] | Some g \<Rightarrow> [(h, content_type r)])
           \<and> length (concat (chunks_of steps)) = sum_list (map length (chunks_of steps))
           \<and> v = blobUrl (fst dp')
           \<and> (if Revoke h \<in> set E
              then v = None \<and> objects (snd dp') = old @ [None]
                \<and> (\<exists>g. success opts = Some g \<and> fst (g h (content_type r)) \<noteq> [])
              else v = Some h
                \<and> objects (snd dp')
                    = old @ [Some \<lparr>bytes = concat (chunks_of steps), btype = content_type r\<rparr>])"
proof -
  let ?sig = "length (controllers (snd dp))"
  obtain tres Z where t: "try_block url opts net ?sig (begun dp) = (tres, Z)"
    by (cases "try_block url opts net ?sig (begun dp)")
  have "\<not> isl tres"
  proof
    assume "isl tres"
    then obtain e where "tres = Inl e" by (cases tres) simp_all
    then have "catch_block opts e Z = (Inr v, dp')" using run t by (simp add: download_eq)
    then show False
      using catch_block_cases [of opts e Z "Inr v" dp']
      by (auto split: option.splits js_error.splits)
  qed
  then have Z: "tres = Inr v" "Z = dp'" using run t by (cases tres; simp add: download_eq)+
  have len: "length (concat vs) = sum_list (map length vs)" for vs :: "byte list list"
    by (simp add: length_concat)
  have fresh: "resolve h (snd dp) = None" by (simp add: resolve_def h_def)
  from active_begun t show ?thesis
  proof (cases rule: try_block_shapes)
    case (early es t e)
    then show ?thesis using Z by simp
  next
    case (range es t r steps)
    then show ?thesis using Z by simp
  next
    case (published es t r steps)
    let ?ct = "content_type r"
    let ?X = "went es t (begun dp)"
    let ?Y = "published ?ct (chunks_of steps) ?X"
    let ?S = "Success h ?ct"
    define W where "W = es @ (if t = None then [] else stop_events (begun dp) @ rest t)
                          @ release_events ?X"
    have trY: "trace (snd ?Y) = trace (snd dp) @ W @ [Create h]" by (simp add: W_def h_def)
    have relW: "Revoke u \<in> set W" if "blobUrl (fst dp) = Some u" for u
      using that by (cases t) (simp_all add: W_def state_defs)
    have cW: "created W = []" "success_calls W = []" "Revoke h \<notin> set W"
      using published(4,5) wf
      by (cases t; cases "blobUrl (fst dp)"; auto simp add: W_def state_defs h_def)+
    have oY: "objects (snd ?Y) = old @ [Some \<lparr>bytes = concat (chunks_of steps), btype = ?ct\<rparr>]"
      by (cases t; cases "blobUrl (fst dp)") (simp_all add: state_defs old_def)
    have lold: "h = length old" by (simp add: old_def h_def split: option.splits)
    have goal: ?thesis
      if tr: "trace (snd dp') = trace (snd ?Y) @ tail" and tl: "created tail = []"
        and sc: "success_calls tail = (case success opts of None \<Rightarrow> [] | Some g \<Rightarrow> [(h, ?ct)])"
        and v: "v = blobUrl (fst dp')"
        and fin: "if Revoke h \<in> set tail
              then blobUrl (fst dp') = None \<and> objects (snd dp') = old @ [None]
                \<and> (\<exists>g. success opts = Some g \<and> fst (g h ?ct) \<noteq> [])
              else blobUrl (fst dp') = Some h \<and> objects (snd dp') = objects (snd ?Y)"
      for tail
    proof -
      have E: "E = W @ Create h # tail" using tr trY by (simp add: E_def)
      have "\<exists>pre post. E = pre @ Create h # post \<and> Revoke u \<in> set pre"
        if "blobUrl (fst dp) = Some u" for u
        using E relW [OF that] by blast
      then show ?thesis
        using published(1-3) fresh cW tl sc v fin oY
        by (intro exI [of _ r] exI [of _ steps]) (simp add: E len)
    qed
    show ?thesis
    proof (cases "success opts")
      case None
      then have d: "dp' = ?Y" "v = Some h" using published(8) Z by (simp_all add: h_def)
      show ?thesis by (rule goal [of "[]"]) (simp_all add: d None h_def)
    next
      case (Some g)
      then have d: "dp' = (if fst (g h ?ct) = [] then log [?S] ?Y else stop (log [?S] ?Y))"
        and vv: "v = blobUrl (fst dp')"
        using published(8) Z by (auto simp add: h_def split: option.splits)
      show ?thesis
      proof (cases "fst (g h ?ct) = []")
        case True
        then have dd: "dp' = log [?S] ?Y" using d by simp
        show ?thesis by (rule goal [of "[?S]"]) (simp_all add: dd Some vv h_def)
      next
        case False
        then have dd: "dp' = stop (log [?S] ?Y)" using d by simp
        have "objects (released ?Y) = (objects (snd ?Y))[h := None]"
          unfolding objects_released [of ?Y] by (simp add: h_def del: published_simps(3))
        then have "objects (snd dp') = (old @ [Some \<lparr>bytes = concat (chunks_of steps), btype = ?ct\<rparr>])[h := None]"
          unfolding oY by (simp add: dd del: published_simps(3))
        then have o: "objects (snd dp') = old @ [None]"
          using lold by (simp only: list_update_last)
        have rv: "Revoke h \<in> set (?S # stop_events ?Y)" by (simp add: stop_events_def h_def)
        have b: "blobUrl (fst dp') = None" by (simp add: dd)
        show ?thesis
        proof (rule goal [of "?S # stop_events ?Y"])
          show "trace (snd dp') = trace (snd ?Y) @ ?S # stop_events ?Y" by (simp add: dd)
          show "created (?S # stop_events ?Y) = []" by simp
          show "success_calls (?S # stop_events ?Y)
              = (case success opts of None \<Rightarrow> [] | Some g \<Rightarrow> [(h, ?ct)])"
            by (simp add: Some)
          show "v = blobUrl (fst dp')" by (rule vv)
          show "if Revoke h \<in> set (?S # stop_events ?Y)
              then blobUrl (fst dp') = None \<and> objects (snd dp') = old @ [None]
                \<and> (\<exists>g. success opts = Some g \<and> fst (g h ?ct) \<noteq> [])
              else blobUrl (fst dp') = Some h \<and> objects (snd dp') = objects (snd ?Y)"
            using rv b o Some False by (simp only: if_True) simp
        qed
      qed
    qed
  qed
qed

text \<open>
  C1 fails on the value returned. \<^verbatim>\<open>download\<close> is documented to resolve to the blob URL of
  the downloaded file, and it returns \<^verbatim>\<open>this.blobUrl\<close> as that field is after the \<^verbatim>\<open>success\<close>
  callback has run. A callback that calls \<^verbatim>\<open>this.stop()\<close> (it runs with the session as
  \<^verbatim>\<open>this\<close>) makes the transfer succeed with the value null: the callback was handed the
  new blob URL, \<^verbatim>\<open>stop()\<close> revoked it and cleared the field, and no payload is behind it.
\<close>

theorem success_callback_stop_returns_null:
  "fst (download ''u'' (no_options\<lparr>success := Some (\<lambda>u t. ([CallStop], None))\<rparr>)
        (served [Chunk [1, 2]]) (new_downloader, p0)) = Inr None
   \<and> success_calls (trace (snd (snd (download ''u''
        (no_options\<lparr>success := Some (\<lambda>u t. ([CallStop], None))\<rparr>)
        (served [Chunk [1, 2]]) (new_downloader, p0))))) = [(0, None)]
   \<and> resolve 0 (snd (snd (download ''u''
        (no_options\<lparr>success := Some (\<lambda>u t. ([CallStop], None))\<rparr>)
        (served [Chunk [1, 2]]) (new_downloader, p0)))) = None"
  by (simp add: run_defs served_def resolve_def)

section \<open>The percentage of the code and the percentage of the specification\<close>

lemma round_half_even_near: "\<bar>of_int (round_half_even r) - r\<bar> \<le> 1 / 2"
proof -
  have "of_int \<lfloor>r\<rfloor> \<le> r" "r < of_int \<lfloor>r\<rfloor> + 1" by linarith+
  then show ?thesis by (auto simp add: round_half_even_def Let_def abs_le_iff)
qed

lemma round_pos_error:
  assumes "0 < x" "x < 2 powi (E + 1)" "- 1074 \<le> E - 52"
  shows "\<bar>round_pos x - x\<bar> \<le> 2 powi (E - 53)"
proof -
  let ?q = "quantum x"
  let ?m = "round_half_even (x / 2 powi ?q)"
  have "2 powi ilog2 x < (2::rat) powi (E + 1)"
    using ilog2_bounds(1) [OF assms(1)] assms(2) by simp
  then have "ilog2 x < E + 1" by (rule two_powi_less_cancel)
  then have q: "?q \<le> E - 52" using assms(3) by (simp add: quantum_def)
  have p: "(0::rat) < 2 powi ?q" by (rule two_powi_pos)
  have "round_pos x - x = (of_int ?m - x / 2 powi ?q) * 2 powi ?q"
    using assms(1) p by (simp add: round_pos_def field_simps)
  then have "\<bar>round_pos x - x\<bar> = \<bar>of_int ?m - x / 2 powi ?q\<bar> * 2 powi ?q"
    using p by (simp add: abs_mult)
  also have "\<dots> \<le> 1 / 2 * 2 powi ?q"
    using round_half_even_near [of "x / 2 powi ?q"] p by (intro mult_right_mono) simp_all
  also have "\<dots> = 2 powi (?q - 1)" by (simp add: power_int_diff)
  also have "\<dots> \<le> 2 powi (E - 53)" using q by (intro two_powi_mono) simp
  finally show ?thesis .
qed

lemma to_double_error:
  assumes "0 \<le> x" "x < 2 powi (E + 1)" "- 1022 \<le> E" "E \<le> 1022"
  shows "\<exists>y. to_double x = Fin y \<and> 0 \<le> y \<and> \<bar>y - x\<bar> \<le> 2 powi (E - 53)"
proof (cases "x = 0")
  case True
  then show ?thesis using two_powi_pos [of "E - 53"] by (intro exI [of _ 0]) (simp add: less_imp_le)
next
  case False
  then have x: "0 < x" using assms(1) by simp
  have e: "\<bar>round_pos x - x\<bar> \<le> 2 powi (E - 53)"
    using x assms(2) by (rule round_pos_error) (use assms(3) in simp)
  have r: "round64 x = round_pos x" using x by (simp add: round64_def)
  have nn: "0 \<le> round_pos x" using assms(1) by (rule round_pos_nonneg)
  have "(2::rat) powi (E + 1) \<le> 2 powi 1023" using assms(4) by (intro two_powi_mono) simp
  moreover have "(2::rat) powi (E - 53) \<le> 2 powi 1023" using assms(4) by (intro two_powi_mono) simp
  ultimately have "round_pos x < 2 powi 1023 + 2 powi 1023" using e assms(2) by (simp add: abs_le_iff)
  then have "round_pos x < 2 ^ 1024" by simp
  moreover have "\<not> round_pos x \<le> - (2 ^ 1024)" using nn by (simp add: not_le less_le_trans [of _ 0])
  ultimately have "to_double x = Fin (round_pos x)" by (simp add: to_double_def r)
  then show ?thesis using e nn by blast
qed

lemma percent_of_error:
  assumes "n < L"
  shows "\<exists>x. js_mul (js_div (Fin (of_nat n)) (Fin (of_nat L))) (Fin 100) = Fin x
           \<and> \<bar>x - of_nat n / of_nat L * 100\<bar> < 1 / 2 ^ 46"
proof -
  define v :: rat where "v = of_nat n / of_nat L"
  define d :: rat where "d = 1 / 2 ^ 54"
  define e :: rat where "e = 1 / 2 ^ 47"
  have L: "(0::rat) < of_nat L" using assms by simp
  have v: "0 \<le> v" "v < 2 powi (- 1 + 1)" using assms L by (simp_all add: v_def)
  from to_double_error [OF v] obtain a where
    a: "to_double v = Fin a" "0 \<le> a" "\<bar>a - v\<bar> \<le> 2 powi (- 1 - 53)" by auto
  have "(2::rat) powi (- 1 - 53) = d" by (simp add: d_def power_int_minus_divide)
  then have "\<bar>a - v\<bar> \<le> d" using a(3) by simp
  then have ad: "a - v \<le> d" "v - a \<le> d" by linarith+
  have v1: "v < 1" using v(2) by simp
  have d1: "d < 28 / 100" by (simp add: d_def)
  have "a < 128 / 100" using ad(1) v1 d1 by linarith
  then have p: "0 \<le> a * 100" "a * 100 < 2 powi (6 + 1)" using a(2) by simp_all
  from to_double_error [OF p] obtain x where
    x: "to_double (a * 100) = Fin x" "\<bar>x - a * 100\<bar> \<le> 2 powi (6 - 53)" by auto
  have "(2::rat) powi (6 - 53) = e" by (simp add: e_def power_int_minus_divide)
  then have "\<bar>x - a * 100\<bar> \<le> e" using x(2) by simp
  then have xe: "x - a * 100 \<le> e" "a * 100 - x \<le> e" by linarith+
  have tot: "e + 100 * d < 1 / 2 ^ 46" by (simp add: d_def e_def)
  have "x - v * 100 < 1 / 2 ^ 46" "v * 100 - x < 1 / 2 ^ 46"
    using xe ad tot by linarith+
  then have "\<bar>x - v * 100\<bar> < 1 / 2 ^ 46" by linarith
  moreover have "js_mul (js_div (Fin (of_nat n)) (Fin (of_nat L))) (Fin 100) = Fin x"
    using L a(1) x(1) by (simp add: v_def)
  ultimately show ?thesis unfolding v_def by blast
qed

lemma spec_percent_div: "0 < L \<Longrightarrow> spec_percent n L = int ((200 * n + L) div (2 * L))"
proof -
  assume L: "0 < L"
  have "(of_nat n / of_nat L :: rat) * 100 + 1 / 2 = of_nat (200 * n + L) / of_nat (2 * L)"
    using L by (simp add: field_simps)
  then show ?thesis by (simp only: spec_percent_def floor_divide_of_nat_eq)
qed

lemma percent_of_spec:
  assumes "n \<le> L" "0 < L" "L \<le> 2 ^ 45"
  shows "\<exists>k. percent_of (Fin (of_nat n)) (Fin (of_nat L)) = Fin (of_int k)
           \<and> (k = spec_percent n L \<or> halfway n L \<and> k = spec_percent n L - 1)"
proof (cases "n = L")
  case True
  have "spec_percent L L = 100" using assms(2) by (simp add: spec_percent_div)
  moreover have "percent_of (Fin (of_nat L)) (Fin (of_nat L)) = Fin (of_int 100)"
    using assms(2) percent_of_full [of "of_nat L"] by simp
  ultimately show ?thesis using True by (intro exI [of _ 100]) simp
next
  case False
  then have nL: "n < L" using assms(1) by simp
  define N D where "N = 200 * n + L" and "D = 2 * L"
  define k0 where "k0 = int (N div D)"
  define m where "m = N mod D"
  define w :: rat where "w = of_nat n / of_nat L * 100 + 1 / 2"
  define dl :: rat where "dl = 1 / of_nat D"
  have D: "0 < D" using assms(2) by (simp add: D_def)
  have k0: "spec_percent n L = k0" using assms(2) by (simp add: spec_percent_div k0_def N_def D_def)
  have "w = of_nat N / of_nat D" using assms(2) by (simp add: w_def N_def D_def field_simps)
  also have "N = D * (N div D) + m" by (simp add: m_def)
  finally have w: "w = of_int k0 + of_nat m * dl"
    using D by (simp add: k0_def dl_def field_simps)
  have mD: "m < D" using D by (simp add: m_def)
  have dl: "0 < dl" "of_nat D * dl = 1" using D by (simp_all add: dl_def)
  have "(of_nat D :: rat) \<le> of_nat (2 ^ 46)" using assms(3) by (simp only: of_nat_le_iff D_def) simp
  then have "(of_nat D :: rat) \<le> 2 ^ 46" by simp
  then have small: "1 / 2 ^ 46 \<le> dl" using D unfolding dl_def by (intro divide_left_mono) simp_all
  from percent_of_error [OF nL] obtain x where
    x: "js_mul (js_div (Fin (of_nat n)) (Fin (of_nat L))) (Fin 100) = Fin x"
    and "\<bar>x - of_nat n / of_nat L * 100\<bar> < 1 / 2 ^ 46" by blast
  then have "\<bar>(x + 1 / 2) - w\<bar> < 1 / 2 ^ 46" by (simp add: w_def)
  then have near: "x + 1 / 2 - w < dl" "w - (x + 1 / 2) < dl" using small by linarith+
  have p: "percent_of (Fin (of_nat n)) (Fin (of_nat L)) = Fin (of_int \<lfloor>x + 1 / 2\<rfloor>)"
    unfolding percent_of_def x by simp
  show ?thesis
  proof (cases "m = 0")
    case True
    then have h: "halfway n L" by (simp add: halfway_def m_def N_def D_def)
    have wk: "w = of_int k0" using w True by simp
    have "dl \<le> 1" using D by (simp add: dl_def)
    then have "of_int (k0 - 1) \<le> x + 1 / 2" "x + 1 / 2 < of_int k0 + 1"
      using near wk by simp_all
    then have "\<lfloor>x + 1 / 2\<rfloor> = k0 \<or> \<lfloor>x + 1 / 2\<rfloor> = k0 - 1"
      by (cases "of_int k0 \<le> x + 1 / 2") (simp_all add: floor_eq_iff)
    then show ?thesis using p h k0 by auto
  next
    case False
    then have "1 \<le> m" "m + 1 \<le> D" using mD by simp_all
    then have "(of_nat 1 :: rat) \<le> of_nat m" "(of_nat (m + 1) :: rat) \<le> of_nat D"
      by (simp_all only: of_nat_le_iff)
    then have "1 * dl \<le> of_nat m * dl" "(of_nat m + 1) * dl \<le> of_nat D * dl"
      using dl(1) by (simp_all add: mult_right_mono)
    then have "dl \<le> of_nat m * dl" "of_nat m * dl + dl \<le> 1"
      using dl(2) by (simp_all add: algebra_simps)
    then have "of_int k0 \<le> x + 1 / 2" "x + 1 / 2 < of_int k0 + 1"
      using near w by linarith+
    then have "\<lfloor>x + 1 / 2\<rfloor> = k0" by (simp add: floor_eq_iff)
    then show ?thesis using p k0 by auto
  qed
qed

lemma to_double_eval:
  assumes "2 powi e \<le> x" "x < 2 powi (e + 1)" "- 1022 \<le> e" "e \<le> 1022"
    and "round_half_even (x / 2 powi (e - 52)) = m"
  shows "to_double x = Fin (of_int m * 2 powi (e - 52))"
proof -
  have x: "0 < x" using two_powi_pos [of e] assms(1) by (rule less_le_trans)
  have "ilog2 x = e" using x assms(1,2) by (rule ilog2_unique)
  then have q: "quantum x = e - 52" using assms(3) by (simp add: quantum_def)
  then have r: "round_pos x = of_int m * 2 powi (e - 52)"
    using x assms(5) by (simp add: round_pos_def)
  have "round_pos x \<le> 2 powi (quantum x + 53)" using x by (rule round_pos_upper)
  also have "\<dots> \<le> 2 powi 1023" using assms(4) by (intro two_powi_mono) (simp add: q)
  also have "\<dots> < 2 ^ 1024" by simp
  finally have "round_pos x < 2 ^ 1024" .
  moreover have "0 \<le> round_pos x" using x by (intro round_pos_nonneg) simp
  then have "\<not> round_pos x \<le> - (2 ^ 1024)" by (simp add: not_le less_le_trans [of _ 0])
  ultimately show ?thesis using x r by (simp add: to_double_def round64_def)
qed

lemma to_double_23_40: "to_double (23 / 40) = Fin (5179139571476070 / 2 ^ 53)"
  using to_double_eval [of "- 1" "23 / 40" 5179139571476070]
  by (simp add: power_int_minus_divide round_half_even_def Let_def)

lemma to_double_23_40_100:
  "to_double (5179139571476070 / 2 ^ 53 * 100) = Fin (8092405580431359 / 2 ^ 47)"
  using to_double_eval [of 5 "5179139571476070 / 2 ^ 53 * 100" 8092405580431359]
  by (simp add: power_int_minus_divide round_half_even_def Let_def)

lemmas to_double_57 = to_double_23_40 [simplified] to_double_23_40_100 [simplified]

lemma percent_of_23_40: "percent_of (Fin 23) (Fin 40) = Fin 57"
  by (simp add: percent_of_def to_double_57)

lemma to_double_big:
  "to_double (50068606172766 / 53549311414723) = Fin (8421731303182827 / 2 ^ 53)"
  using to_double_eval [of "- 1" "50068606172766 / 53549311414723" 8421731303182827]
  by (simp add: power_int_minus_divide round_half_even_def Let_def)

lemma to_double_big_100:
  "to_double (8421731303182827 / 2 ^ 53 * 100) = Fin (6579477580611584 / 2 ^ 46)"
  using to_double_eval [of 6 "8421731303182827 / 2 ^ 53 * 100" 6579477580611584]
  by (simp add: power_int_minus_divide round_half_even_def Let_def)

lemmas to_double_94 = to_double_big [simplified] to_double_big_100 [simplified]

lemma percent_of_big: "percent_of (Fin 50068606172766) (Fin 53549311414723) = Fin 94"
  by (simp add: percent_of_def to_double_94)

lemma received_bounds: "x \<in> set (received n vs) \<Longrightarrow> n \<le> x \<and> x \<le> n + length (concat vs)"
proof (induction vs arbitrary: n)
  case Nil
  then show ?case by simp
next
  case (Cons v vs)
  show ?case
  proof (cases "x = n + length v")
    case True
    then show ?thesis by simp
  next
    case False
    then have "x \<in> set (received (n + length v) vs)" using Cons.prems by simp
    from Cons.IH [OF this] show ?thesis by simp
  qed
qed

lemma last_received: "vs \<noteq> [] \<Longrightarrow> last (received n vs) = n + length (concat vs)"
proof (induction vs arbitrary: n)
  case Nil
  then show ?case by simp
next
  case (Cons v vs)
  then show ?case using Cons.IH [of "n + length v"] by (cases vs) simp_all
qed

lemma cumulative_received:
  "n + length (concat vs) \<le> 2 ^ 53
   \<Longrightarrow> cumulative (Fin (of_nat n)) vs = map (\<lambda>k. Fin (of_nat k)) (received n vs)"
proof (induction vs arbitrary: n)
  case Nil
  then show ?case by simp
next
  case (Cons v vs)
  have le: "n + length v \<le> 2 ^ 53" "length v \<le> 2 ^ 53" using Cons.prems by simp_all
  have "js_add (Fin (of_nat n)) (array_length v) = to_double (of_nat (n + length v))"
    using le(2) by (simp add: array_length_exact)
  then have step: "js_add (Fin (of_nat n)) (array_length v) = Fin (of_nat (n + length v))"
    using le(1) by (simp only: to_double_of_nat)
  have "cumulative (Fin (of_nat (n + length v))) vs
      = map (\<lambda>k. Fin (of_nat k)) (received (n + length v) vs)"
    using Cons.prems by (intro Cons.IH) simp
  then show ?case by (simp add: step del: of_nat_add)
qed

text \<open>
  C2, as the code has it. Let the response advertise the total length \<open>L > 0\<close>, and let
  the chunks of the body have \<open>L\<close> bytes in all (at most \<open>2\<^sup>5\<^sup>3\<close>, the integers that
  \<^verbatim>\<open>receivedLength\<close> counts exactly). The values passed to the progress callback are, in the
  order of the calls, an initial part of the list of \<^verbatim>\<open>Math.round((r / L) * 100)\<close> for the
  numbers \<open>r\<close> of bytes received after each chunk, in the order of the chunks, and the whole
  list when the transfer succeeds: one call after each chunk. That list is non-decreasing
  and ends with 100. The quotient and the product are rounded to binary64 before
  \<^verbatim>\<open>Math.round\<close> sees them: up to \<open>2\<^sup>4\<^sup>5\<close> bytes each value is the \<open>round(r / L * 100)\<close> of the
  specification, except that it may be one less when \<open>r / L * 100\<close> lies exactly halfway
  between two integers.
\<close>

theorem progress_reports_in_order:
  assumes "download url opts net dp = (res, dp')"
    and "outcome net = Response r" "body r = Some steps" "progress opts = Some f"
    and "to_number (content_length r) = Fin (of_nat L)" "0 < L" "L \<le> 2 ^ 53"
    and "length (concat (chunks_of steps)) = L"
  defines "rs \<equiv> received 0 (chunks_of steps)"
    and "ps \<equiv> map (\<lambda>n. percent_of (Fin (of_nat n)) (Fin (of_nat L))) (received 0 (chunks_of steps))"
  shows "prefix (progress_values (emitted (snd dp) (snd dp'))) ps
       \<and> (\<not> isl res \<longrightarrow> progress_values (emitted (snd dp) (snd dp')) = ps)
       \<and> sorted_wrt js_le ps
       \<and> last ps = Fin 100
       \<and> (L \<le> 2 ^ 45 \<longrightarrow>
            (\<forall>n\<in>set rs. \<exists>k. percent_of (Fin (of_nat n)) (Fin (of_nat L)) = Fin (of_int k)
               \<and> (k = spec_percent n L \<or> halfway n L \<and> k = spec_percent n L - 1)))"
proof -
  let ?vs = "chunks_of steps"
  have "0 + length (concat ?vs) \<le> 2 ^ 53" using assms(7,8) by simp
  from cumulative_received [OF this]
  have cum: "cumulative (Fin 0) ?vs = map (\<lambda>k. Fin (of_nat k)) (received 0 ?vs)" by simp
  have l: "(0::rat) < of_nat L" using assms(6) by simp
  have "all_reports opts net = map (\<lambda>x. percent_of x (Fin (of_nat L))) (cumulative (Fin 0) ?vs)"
    using assms(2-5) l by (intro all_reports_eq) simp_all
  then have ar: "all_reports opts net = ps" by (simp add: cum ps_def comp_def)
  have "sorted_wrt js_le (map (\<lambda>x. percent_of x (Fin (of_nat L))) (cumulative (Fin 0) ?vs))"
    using l by (rule cumulative_percent_sorted)
  then have so: "sorted_wrt js_le ps" by (simp add: cum ps_def comp_def)
  have ne: "?vs \<noteq> []" using assms(6,8) by auto
  then have "received 0 ?vs \<noteq> []" by (cases ?vs) simp_all
  moreover have "last (received 0 ?vs) = L" using last_received [OF ne, of 0] assms(8) by simp
  ultimately have la: "last ps = Fin 100"
    using l percent_of_full [of "of_nat L"] by (simp add: ps_def last_map)
  have sp: "\<exists>k. percent_of (Fin (of_nat n)) (Fin (of_nat L)) = Fin (of_int k)
             \<and> (k = spec_percent n L \<or> halfway n L \<and> k = spec_percent n L - 1)"
    if "n \<in> set rs" "L \<le> 2 ^ 45" for n
  proof -
    have "n \<le> L" using received_bounds [of n 0 ?vs] that(1) assms(8) by (simp add: rs_def)
    then show ?thesis using assms(6) that(2) by (rule percent_of_spec)
  qed
  show ?thesis
    using download_progress [OF assms(1)] so la sp by (simp add: ar)
qed

theorem progress_reports_in_order_witness:
  "progress_values (emitted p0 (snd (snd (download ''u'' (no_options\<lparr>progress := Some (\<lambda>x. returns)\<rparr>)
     \<lparr>pending = [], outcome = Response \<lparr>status = 200, content_type = None,
        content_length = Some ''1000'',
        body = Some [Chunk (replicate 250 0), Chunk (replicate 250 1),
                     Chunk (replicate 250 2), Chunk (replicate 250 3)]\<rparr>\<rparr>
     (new_downloader, p0)))))
   = [Fin 25, Fin 50, Fin 75, Fin 100]
   \<and> spec_percent 250 1000 = 25"
proof -
  let ?steps = "[Chunk (replicate 250 0), Chunk (replicate 250 1),
                 Chunk (replicate 250 2), Chunk (replicate 250 (3::byte))]"
  let ?r = "\<lparr>status = 200, content_type = None, content_length = Some ''1000'',
             body = Some ?steps\<rparr>"
  let ?opts = "no_options\<lparr>progress := Some (\<lambda>x. returns)\<rparr>"
  let ?run = "download ''u'' ?opts \<lparr>pending = [], outcome = Response ?r\<rparr> (new_downloader, p0)"
  have ok: "\<not> isl (fst ?run)" by (simp add: run_defs parse_defs)
  have h1: "?run = (fst ?run, snd ?run)" by simp
  have h2: "outcome \<lparr>pending = [], outcome = Response ?r\<rparr> = Response ?r" by simp
  have h3: "body ?r = Some ?steps" by simp
  have h4: "progress ?opts = Some (\<lambda>x. returns)" by (simp add: no_options_def)
  have h5: "to_number (content_length ?r) = Fin (of_nat 1000)" by (simp add: to_number_def parse_defs)
  have h6: "(0::nat) < 1000" by simp
  have h7: "(1000::nat) \<le> 2 ^ 53" by simp
  have h8: "length (concat (chunks_of ?steps)) = 1000" by simp
  have h9: "(1000::nat) \<le> 2 ^ 45" by simp
  note all = progress_reports_in_order [OF h1 h2 h3 h4 h5 h6 h7 h8]
  from all [THEN conjunct2, THEN conjunct1, THEN mp, OF ok]
  have pv: "progress_values (emitted p0 (snd (snd ?run))) = [Fin 25, Fin 50, Fin 75, Fin 100]"
    by (simp add: percent_of_def)
  have "250 \<in> set (received 0 (chunks_of ?steps))" by simp
  with all [THEN conjunct2, THEN conjunct2, THEN conjunct2, THEN conjunct2, THEN mp, OF h9]
  have "\<exists>k. percent_of (Fin (of_nat 250)) (Fin (of_nat 1000)) = Fin (of_int k)
      \<and> (k = spec_percent 250 1000 \<or> halfway 250 1000 \<and> k = spec_percent 250 1000 - 1)"
    by (rule bspec)
  moreover have "\<not> halfway 250 1000" by (simp add: halfway_def)
  moreover have "percent_of (Fin (of_nat 250)) (Fin (of_nat 1000)) = Fin (of_int 25)"
    by (simp add: percent_of_def)
  ultimately have "spec_percent 250 1000 = 25" by auto
  with pv show ?thesis by (rule conjI)
qed

text \<open>
  The claim C2 as stated fails on the value reported. With 40 bytes advertised and 23
  received, \<open>23 / 40 * 100\<close> is 57.5 and rounds to 58; the binary64 quotient is a little
  below \<open>23 / 40\<close>, the product a little below 57.5, and the callback is called with 57.
  Beyond \<open>2\<^sup>4\<^sup>5\<close> bytes the values differ away from the halfway points too, and the other
  way round: the product is rounded up to 93.5, and the value is 94 where
  \<open>round(r / L * 100)\<close> is 93.
\<close>

theorem progress_differs_from_round:
  "progress_values (emitted p0 (snd (snd (download ''u'' (no_options\<lparr>progress := Some (\<lambda>x. returns)\<rparr>)
     \<lparr>pending = [], outcome = Response \<lparr>status = 200, content_type = None,
        content_length = Some ''40'',
        body = Some [Chunk (replicate 23 0), Chunk (replicate 17 0)]\<rparr>\<rparr>
     (new_downloader, p0)))))
   = [Fin 57, Fin 100]
   \<and> map (\<lambda>n. spec_percent n 40) [23, 40] = [58, 100]
   \<and> percent_of (Fin 50068606172766) (Fin 53549311414723) = Fin 94
   \<and> spec_percent 50068606172766 53549311414723 = 93"
proof -
  have "progress_values (emitted p0 (snd (snd (download ''u'' (no_options\<lparr>progress := Some (\<lambda>x. returns)\<rparr>)
     \<lparr>pending = [], outcome = Response \<lparr>status = 200, content_type = None,
        content_length = Some ''40'',
        body = Some [Chunk (replicate 23 0), Chunk (replicate 17 0)]\<rparr>\<rparr>
     (new_downloader, p0))))) = [Fin 57, Fin 100]"
    by (simp add: run_defs parse_defs to_double_57)
  moreover have "map (\<lambda>n. spec_percent n 40) [23, 40] = [58, 100]"
    by (simp add: spec_percent_div)
  moreover have "spec_percent 50068606172766 53549311414723 = 93"
    by (simp add: spec_percent_div)
  ultimately show ?thesis using percent_of_big by simp
qed

end
